theory Spec2Isabelle
  imports Main
begin

section \<open>The board of the variant-Sudoku solver\<close>

text \<open>
  The solver is one Python class, \<open>Board\<close>, whose methods mutate the object and signal an
  infeasible position by raising \<open>ImpossibleSetup\<close>.  The embedding passes the object
  explicitly: a method takes the board and gives back either the board it leaves behind
  on a normal return (\<open>Inr\<close>) or the exception together with the board as it stood when
  the exception left the method (\<open>Inl\<close>).

  Values on the grid are Python integers (\<open>int\<close>), coordinates and table entries are
  list indices (\<open>nat\<close>).  The fields keep the names of the class: \<open>b\<close> is the grid with
  0 for a blank square, \<open>p\<close> the "little numbers" (candidate sets), \<open>isGrey\<close> and
  \<open>isPurple\<close> the lookup tables holding 0 or the 1-based index of the line a square is on,
  \<open>greyIndexes\<close> the position of a grey square within its line, \<open>greys\<close> and \<open>purples\<close>
  the lines themselves.  A purple line is a Python set of coordinates; it is modelled as
  the list in which the set is iterated.

  The class indexes its tables without any check.  The model reads a list with \<open>!\<close> and
  is therefore meaningful on the boards the reading code builds: a 9 by 9 grid, 9 by 9
  tables and line coordinates inside the grid (predicate \<open>wf_board\<close> below); a read
  outside a list, which is an \<open>IndexError\<close> in Python, is outside the model.
\<close>

datatype error = ImpossibleSetup

record board =
  b :: "int list list"
  M :: nat
  isGrey :: "nat list list"
  greyIndexes :: "nat list list"
  isPurple :: "nat list list"
  greys :: "(nat \<times> nat) list list"
  purples :: "(nat \<times> nat) list list"
  p :: "int set list list"

type_synonym 'a result = "(error \<times> board) + 'a"

text \<open>
  A \<open>for\<close> loop whose body may raise: the loop stops at the first exception.  \<open>None\<close>
  is the value of a computation that ran out of recursion fuel (see \<open>addNumber\<close>).
\<close>

fun forEach :: "'a list \<Rightarrow> ('a \<Rightarrow> board \<Rightarrow> board result option) \<Rightarrow> board \<Rightarrow> board result option" where
  "forEach [] f s = Some (Inr s)"
| "forEach (x # xs) f s =
     (case f x s of
        None \<Rightarrow> None
      | Some (Inl e) \<Rightarrow> Some (Inl e)
      | Some (Inr s') \<Rightarrow> forEach xs f s')"

definition setCell :: "'a list list \<Rightarrow> nat \<Rightarrow> nat \<Rightarrow> 'a \<Rightarrow> 'a list list" where
  "setCell g row col v = g[row := (g ! row)[col := v]]"

subsection \<open>removePossibility and checkPossibility\<close>

definition removePossibility :: "int \<Rightarrow> nat \<Rightarrow> nat \<Rightarrow> board \<Rightarrow> board" where
  "removePossibility key row col s =
     (if b s ! row ! col = 0 \<and> key \<in> p s ! row ! col
      then s\<lparr>p := setCell (p s) row col (p s ! row ! col - {key})\<rparr>
      else s)"

text \<open>
  \<open>checkPossibility\<close> calls \<open>addNumber\<close>, and \<open>addNumber\<close> calls \<open>checkPossibility\<close>;
  the callee is passed as the argument \<open>add\<close>.
\<close>

definition checkPossibility ::
  "(int \<Rightarrow> nat \<Rightarrow> nat \<Rightarrow> board \<Rightarrow> board result option) \<Rightarrow> int \<Rightarrow> nat \<Rightarrow> nat \<Rightarrow> board \<Rightarrow> board result option" where
  "checkPossibility add key row col s =
     (if b s ! row ! col = 0 \<and> key \<in> p s ! row ! col
      then (if card (p s ! row ! col) = 0 then Some (Inl (ImpossibleSetup, s))
            else if card (p s ! row ! col) = 1 then add (the_elem (p s ! row ! col)) row col s
            else Some (Inr s))
      else Some (Inr s))"

subsection \<open>addNumber\<close>

text \<open>The squares visited by the two loops over the row and the column, in loop order.\<close>

definition rowColCells :: "nat \<Rightarrow> nat \<Rightarrow> nat \<Rightarrow> (nat \<times> nat) list" where
  "rowColCells m row col = concat (map (\<lambda>i. [(row, i), (i, col)]) [0..<m])"

text \<open>The squares of the 3 by 3 square around \<open>(row, col)\<close>, in loop order.\<close>

definition squareCells :: "nat \<Rightarrow> nat \<Rightarrow> (nat \<times> nat) list" where
  "squareCells row col =
     concat (map (\<lambda>i. map (\<lambda>j. (i, j)) [col - col mod 3 ..< col - col mod 3 + 3])
                 [row - row mod 3 ..< row - row mod 3 + 3])"

text \<open>
  The body of the loop over a purple line of length \<open>L\<close>, for the square \<open>(r, c)\<close> of the
  line, after \<open>key\<close> was written to \<open>(row, col)\<close>.
\<close>

definition purpleStep ::
  "(int \<Rightarrow> nat \<Rightarrow> nat \<Rightarrow> board \<Rightarrow> board result option) \<Rightarrow> int \<Rightarrow> nat \<Rightarrow> nat \<Rightarrow> nat \<Rightarrow>
     nat \<times> nat \<Rightarrow> board \<Rightarrow> board result option" where
  "purpleStep add key row col L rc s =
     (let r = fst rc; c = snd rc in
      if b s ! r ! c \<noteq> 0 \<and> (r \<noteq> row \<or> c \<noteq> col)
      then (if b s ! r ! c = key \<or> b s ! r ! c \<le> key - int L \<or> b s ! r ! c \<ge> key + int L
            then Some (Inl (ImpossibleSetup, s))
            else Some (Inr s))
      else
        (let lo = [0 .. key - int L];
             hi = [key + int L .. int (M s) - 1];
             s1 = fold (\<lambda>i. removePossibility i r c) (lo @ hi) s
         in forEach (lo @ hi) (\<lambda>i. checkPossibility add i r c) s1))"

text \<open>
  \<open>addNumber\<close> is recursive through \<open>checkPossibility\<close> and through the grey (mirror)
  line.  The first argument is recursion fuel: \<open>None\<close> means that the fuel ran out before
  the call returned or raised.  The method looks a line up in the module-level lists
  \<open>greys\<close> and \<open>purples\<close>, which are the lists the board was built from; the model
  reads the fields.  A position \<open>greyIndexes\<close> beyond the end of its line makes Python
  index from the end or raise; on the boards of \<open>wf_board\<close> below it does not occur.
\<close>

primrec addNumber :: "nat \<Rightarrow> int \<Rightarrow> nat \<Rightarrow> nat \<Rightarrow> board \<Rightarrow> board result option" where
  "addNumber 0 key row col s = None"
| "addNumber (Suc n) key row col s =
     (if b s ! row ! col \<noteq> 0
      then (if b s ! row ! col \<noteq> key then Some (Inl (ImpossibleSetup, s)) else Some (Inr s))
      else
        (let s1 = s\<lparr>b := setCell (b s) row col key\<rparr>;
             cells = rowColCells (M s1) row col @ squareCells row col;
             s2 = fold (\<lambda>rc. removePossibility key (fst rc) (snd rc)) cells s1
         in case forEach cells (\<lambda>rc. checkPossibility (addNumber n) key (fst rc) (snd rc)) s2 of
              None \<Rightarrow> None
            | Some (Inl e) \<Rightarrow> Some (Inl e)
            | Some (Inr s3) \<Rightarrow>
                if isGrey s3 ! row ! col \<noteq> 0
                then (let line = greys s3 ! (isGrey s3 ! row ! col - 1);
                          mirrorIndex = length line - greyIndexes s3 ! row ! col - 1;
                          mirror = line ! mirrorIndex
                      in addNumber n key (fst mirror) (snd mirror) s3)
                else if isPurple s3 ! row ! col \<noteq> 0
                then (let line = purples s3 ! (isPurple s3 ! row ! col - 1)
                      in forEach line (purpleStep (addNumber n) key row col (length line)) s3)
                else Some (Inr s3)))"

subsection \<open>The constructor\<close>

definition allCells :: "nat \<Rightarrow> (nat \<times> nat) list" where
  "allCells m = concat (map (\<lambda>i. map (\<lambda>j. (i, j)) [0..<m]) [0..<m])"

definition updatePossibilities :: "nat \<Rightarrow> board \<Rightarrow> board result option" where
  "updatePossibilities fuel s =
     forEach (allCells (M s))
       (\<lambda>ij t. if b t ! fst ij ! snd ij \<noteq> 0
               then addNumber fuel (b t ! fst ij ! snd ij) (fst ij) (snd ij)
                      (t\<lparr>b := setCell (b t) (fst ij) (snd ij) 0\<rparr>)
               else Some (Inr t)) s"

definition Board ::
  "nat \<Rightarrow> int list list \<Rightarrow> nat list list \<Rightarrow> nat list list \<Rightarrow> nat list list \<Rightarrow>
     (nat \<times> nat) list list \<Rightarrow> (nat \<times> nat) list list \<Rightarrow> board result option" where
  "Board fuel grid isGrey0 greyIndexes0 isPurple0 greys0 purples0 =
     updatePossibilities fuel
       \<lparr>b = grid, M = length grid, isGrey = isGrey0, greyIndexes = greyIndexes0,
        isPurple = isPurple0, greys = greys0, purples = purples0,
        p = replicate (length grid) (replicate (length grid) {1 .. int (length grid)})\<rparr>"

subsection \<open>checkGroup and check\<close>

definition checkGroup :: "nat \<Rightarrow> (nat \<times> nat) list \<Rightarrow> board \<Rightarrow> board result option" where
  "checkGroup fuel grp s =
     forEach [1 .. 9]
       (\<lambda>num t. let l = filter (\<lambda>i. b t ! fst i ! snd i = num) grp
                in if length l = 1 then addNumber fuel num (fst (l ! 0)) (snd (l ! 0)) t
                   else Some (Inr t)) s"

definition groups :: "nat \<Rightarrow> (nat \<times> nat) list list" where
  "groups m =
     concat (map (\<lambda>i. [map (\<lambda>j. (i, j)) [0..<m], map (\<lambda>j. (j, i)) [0..<m]]) [0..<m]) @
     concat (map (\<lambda>i. map (\<lambda>j. concat (map (\<lambda>k. map (\<lambda>l. (k, l)) [j * 3 ..< j * 3 + 3])
                                              [i * 3 ..< i * 3 + 3]))
                          [0..<3]) [0..<3])"

definition check :: "nat \<Rightarrow> board \<Rightarrow> board result option" where
  "check fuel s = forEach (groups (M s)) (checkGroup fuel) s"

subsection \<open>recurse\<close>

text \<open>The two scans that look for the square to guess from; the pair is \<open>(min, minCoords)\<close>.\<close>

definition greyStep :: "board \<Rightarrow> nat \<times> nat \<Rightarrow> nat \<times> (nat \<times> nat) \<Rightarrow> nat \<times> (nat \<times> nat)" where
  "greyStep s rc acc =
     (if b s ! fst rc ! snd rc = 0 \<and> card (p s ! fst rc ! snd rc) < fst acc
      then (card (p s ! fst rc ! snd rc), rc) else acc)"

definition fullStep :: "board \<Rightarrow> nat \<times> nat \<Rightarrow> nat \<times> (nat \<times> nat) \<Rightarrow> nat \<times> (nat \<times> nat)" where
  "fullStep s ij acc =
     (if b s ! fst ij ! snd ij = 0
      then (if card (p s ! fst ij ! snd ij) < fst acc \<or>
               (card (p s ! fst ij ! snd ij) = fst acc \<and> isPurple s ! fst ij ! snd ij \<noteq> 0)
            then (card (p s ! fst ij ! snd ij), ij) else acc)
      else acc)"

text \<open>
  \<open>selectCell s greysLeft\<close> is the part of \<open>recurse\<close> between the call of \<open>check\<close> and the
  test \<open>min == 100\<close>: it gives \<open>min\<close>, \<open>minCoords\<close> and the value of \<open>greysLeft\<close> that is
  handed to the next level.
\<close>

definition selectCell :: "board \<Rightarrow> bool \<Rightarrow> nat \<times> (nat \<times> nat) \<times> bool" where
  "selectCell s greysLeft =
     (let acc1 = (if greysLeft then fold (greyStep s) (concat (greys s)) (100, (0, 0))
                  else (100, (0, 0)));
          greysLeft' = (if greysLeft \<and> fst acc1 = 100 then False else greysLeft);
          acc2 = (if \<not> greysLeft' then fold (fullStep s) (allCells (M s)) acc1 else acc1)
      in (fst acc2, snd acc2, greysLeft'))"

text \<open>
  \<open>recurse\<close> returns the solved grid \<open>self.b\<close>; \<open>guess\<close> is its loop over the
  candidates of the chosen square.  Each candidate is tried on a deep copy of the board,
  so every round starts from the same board; an \<open>ImpossibleSetup\<close> raised by
  \<open>addNumber\<close> or by the recursive call is swallowed and the next candidate is tried,
  and when none is left the loop raises.  The call of \<open>debug\<close> only prints and writes a
  log file and is left out.  The second argument is recursion fuel, as for \<open>addNumber\<close>.

  The loop \<open>for k in self.p[r][c]\<close> iterates a Python set, and the order in which
  CPython does so is not a function of the members: it depends on the hash table the
  set object sits in.  The sets the constructor builds iterate in increasing order, but
  \<open>copy.deepcopy\<close> rebuilds a set of at most four members in a table of 8 slots, where
  8 and 9 come before the smaller digits.  The order is therefore the first argument of
  \<open>recurse\<close>: \<open>order level s A\<close> is the list in which the candidate set \<open>A\<close> of the
  chosen square is iterated by the call at depth \<open>level\<close> on board \<open>s\<close> (within one
  run the depth and the board determine the call, and so the set object).
\<close>

fun recurse ::
    "(nat \<Rightarrow> board \<Rightarrow> int set \<Rightarrow> int list) \<Rightarrow> nat \<Rightarrow> nat \<Rightarrow> bool \<Rightarrow> board \<Rightarrow>
       int list list result option"
  and guess ::
    "(nat \<Rightarrow> board \<Rightarrow> int set \<Rightarrow> int list) \<Rightarrow> nat \<Rightarrow> int list \<Rightarrow> nat \<Rightarrow> nat \<times> nat \<Rightarrow> bool \<Rightarrow>
       board \<Rightarrow> int list list result option" where
  "recurse order 0 level greysLeft s = None"
| "recurse order (Suc n) level greysLeft s =
     (case check (Suc n) s of
        None \<Rightarrow> None
      | Some (Inl e) \<Rightarrow> Some (Inl e)
      | Some (Inr s1) \<Rightarrow>
          (let sel = selectCell s1 greysLeft;
               mn = fst sel; minCoords = fst (snd sel); greysLeft' = snd (snd sel)
           in if mn = 100 then Some (Inr (b s1))
              else guess order n (order level s1 (p s1 ! fst minCoords ! snd minCoords))
                     level minCoords greysLeft' s1))"
| "guess order n [] level minCoords greysLeft s = Some (Inl (ImpossibleSetup, s))"
| "guess order n (k # ks) level minCoords greysLeft s =
     (case addNumber (Suc n) k (fst minCoords) (snd minCoords) s of
        None \<Rightarrow> None
      | Some (Inl e) \<Rightarrow> guess order n ks level minCoords greysLeft s
      | Some (Inr testBoard) \<Rightarrow>
          (case recurse order n (level + 1) greysLeft testBoard of
             None \<Rightarrow> None
           | Some (Inl e) \<Rightarrow> guess order n ks level minCoords greysLeft s
           | Some (Inr grid) \<Rightarrow> Some (Inr grid)))"

text \<open>The main program: build the board from the puzzle and call \<open>recurse(0, True)\<close>.\<close>

definition solve ::
  "(nat \<Rightarrow> board \<Rightarrow> int set \<Rightarrow> int list) \<Rightarrow> nat \<Rightarrow> int list list \<Rightarrow> nat list list \<Rightarrow>
     nat list list \<Rightarrow> nat list list \<Rightarrow> (nat \<times> nat) list list \<Rightarrow> (nat \<times> nat) list list \<Rightarrow>
     int list list result option" where
  "solve order fuel grid isGrey0 greyIndexes0 isPurple0 greys0 purples0 =
     (case Board fuel grid isGrey0 greyIndexes0 isPurple0 greys0 purples0 of
        None \<Rightarrow> None
      | Some (Inl e) \<Rightarrow> Some (Inl e)
      | Some (Inr s) \<Rightarrow> recurse order fuel 0 True s)"

text \<open>
  What every iteration order has in common: iterating a set yields each of its members
  once and nothing else.
\<close>

definition enumerates :: "(nat \<Rightarrow> board \<Rightarrow> int set \<Rightarrow> int list) \<Rightarrow> bool" where
  "enumerates order \<longleftrightarrow>
     (\<forall>level s A. finite A \<longrightarrow> set (order level s A) = A \<and> distinct (order level s A))"

text \<open>
  The order in which CPython iterates a set of digits whose members sit at their own
  slots of the hash table, as in the sets the constructor builds and in a rebuilt set
  that holds neither 8 nor 9 together with a smaller digit of the same slot.
\<close>

definition ascending :: "nat \<Rightarrow> board \<Rightarrow> int set \<Rightarrow> int list" where
  "ascending level s A = sorted_list_of_set A"

section \<open>Well-formed boards and what a call leaves behind\<close>

abbreviation cell :: "'a list list \<Rightarrow> nat \<times> nat \<Rightarrow> 'a" where
  "cell g x \<equiv> g ! fst x ! snd x"

text \<open>A 9 by 9 table, and a coordinate inside it.\<close>

definition tbl :: "'a list list \<Rightarrow> bool" where
  "tbl t \<longleftrightarrow> length t = 9 \<and> (\<forall>row \<in> set t. length row = 9)"

definition inGrid :: "nat \<times> nat \<Rightarrow> bool" where
  "inGrid x \<longleftrightarrow> fst x < 9 \<and> snd x < 9"

text \<open>
  The boards on which no method reads outside a list: the grid and the tables are 9 by 9,
  candidates are digits, a non-zero table entry is the 1-based index of an existing line,
  the position stored for a grey square lies inside its line, and every coordinate on a
  line lies in the grid.
\<close>

definition wf_board :: "board \<Rightarrow> bool" where
  "wf_board s \<longleftrightarrow>
     M s = 9 \<and> tbl (b s) \<and> tbl (p s) \<and> tbl (isGrey s) \<and> tbl (greyIndexes s) \<and> tbl (isPurple s) \<and>
     (\<forall>x \<in> set (allCells 9).
        cell (p s) x \<subseteq> {1 .. 9} \<and>
        (cell (isGrey s) x \<noteq> 0 \<longrightarrow>
           cell (isGrey s) x \<le> length (greys s) \<and>
           cell (greyIndexes s) x < length (greys s ! (cell (isGrey s) x - 1))) \<and>
        cell (isPurple s) x \<le> length (purples s)) \<and>
     (\<forall>line \<in> set (greys s). \<forall>x \<in> set line. inGrid x) \<and>
     (\<forall>line \<in> set (purples s). \<forall>x \<in> set line. inGrid x)"

text \<open>The blank squares of a board.\<close>

definition emptyCells :: "board \<Rightarrow> (nat \<times> nat) list" where
  "emptyCells s = filter (\<lambda>x. cell (b s) x = 0) (allCells 9)"

text \<open>The board a call leaves behind, whether it returned or raised.\<close>

fun boardOf :: "board result \<Rightarrow> board" where
  "boardOf (Inl es) = snd es"
| "boardOf (Inr s) = s"

text \<open>
  \<open>grows s t\<close>: board \<open>t\<close> has the lines and tables of \<open>s\<close>, every value written on
  \<open>s\<close> is still there, and no candidate set has gained a member.
\<close>

definition grows :: "board \<Rightarrow> board \<Rightarrow> bool" where
  "grows s t \<longleftrightarrow>
     M t = M s \<and> isGrey t = isGrey s \<and> greyIndexes t = greyIndexes s \<and>
     isPurple t = isPurple s \<and> greys t = greys s \<and> purples t = purples s \<and>
     tbl (b t) \<and> tbl (p t) \<and>
     (\<forall>x \<in> set (allCells 9).
        (cell (b s) x \<noteq> 0 \<longrightarrow> cell (b t) x = cell (b s) x) \<and> cell (p t) x \<subseteq> cell (p s) x)"

text \<open>A square on which \<open>checkPossibility\<close> with this key does nothing.\<close>

definition settled :: "int \<Rightarrow> nat \<times> nat \<Rightarrow> board \<Rightarrow> bool" where
  "settled key x s \<longleftrightarrow> cell (b s) x \<noteq> 0 \<or> key \<notin> cell (p s) x"

text \<open>A batch of removals, each a key and a square.\<close>

definition removeAll_p :: "(int \<times> nat \<times> nat) list \<Rightarrow> board \<Rightarrow> board" where
  "removeAll_p ks s = fold (\<lambda>kx. removePossibility (fst kx) (fst (snd kx)) (snd (snd kx))) ks s"

text \<open>
  The board after \<open>addNumber\<close> has written \<open>key\<close> and run its removal loops over the row,
  the column and the square.
\<close>

definition place :: "int \<Rightarrow> nat \<Rightarrow> nat \<Rightarrow> board \<Rightarrow> board" where
  "place key row col s =
     removeAll_p (map (Pair key) (rowColCells 9 row col @ squareCells row col))
       (s\<lparr>b := setCell (b s) row col key\<rparr>)"

text \<open>The keys the two removal loops of a purple line of length \<open>L\<close> run through.\<close>

definition purpleKeys :: "int \<Rightarrow> nat \<Rightarrow> int list" where
  "purpleKeys key L = [0 .. key - int L] @ [key + int L .. 8]"

section \<open>Lines and their lookup tables\<close>

text \<open>
  The square a grey square is mirrored to, as \<open>addNumber\<close> computes it from the tables.
\<close>

definition mirrorOf :: "board \<Rightarrow> nat \<times> nat \<Rightarrow> nat \<times> nat" where
  "mirrorOf s x =
     greys s ! (cell (isGrey s) x - 1) !
       (length (greys s ! (cell (isGrey s) x - 1)) - cell (greyIndexes s) x - 1)"

text \<open>
  The grey tables agree with the grey lines, as the constructor's docstring describes
  them: a square with a non-zero \<open>isGrey\<close> entry is the square of that line at the
  position \<open>greyIndexes\<close> gives, and every square of a line carries the line's number
  and its own position.  In particular no square lies on two grey lines or twice on one.
\<close>

definition grey_ok :: "board \<Rightarrow> bool" where
  "grey_ok s \<longleftrightarrow>
     (\<forall>x \<in> set (allCells 9).
        cell (isGrey s) x \<noteq> 0 \<longrightarrow> greys s ! (cell (isGrey s) x - 1) ! cell (greyIndexes s) x = x) \<and>
     (\<forall>g \<in> set [0 ..< length (greys s)]. \<forall>i \<in> set [0 ..< length (greys s ! g)].
        cell (isGrey s) (greys s ! g ! i) = g + 1 \<and> cell (greyIndexes s) (greys s ! g ! i) = i)"

text \<open>
  The purple table agrees with the purple lines: a line lists each of its squares once
  (it is a set), each of them carries the line's number, and none of them is grey.
\<close>

definition purple_ok :: "board \<Rightarrow> bool" where
  "purple_ok s \<longleftrightarrow>
     (\<forall>q \<in> set [0 ..< length (purples s)].
        distinct (purples s ! q) \<and>
        (\<forall>x \<in> set (purples s ! q). cell (isPurple s) x = q + 1 \<and> cell (isGrey s) x = 0))"

text \<open>
  The test a value \<open>v\<close> already on a purple line of length \<open>L\<close> passes when \<open>key\<close> is
  written to another square of the line.
\<close>

definition fits :: "int \<Rightarrow> nat \<Rightarrow> int \<Rightarrow> bool" where
  "fits key L v \<longleftrightarrow> v \<noteq> key \<and> key - int L < v \<and> v < key + int L"

section \<open>The nodes of the search\<close>

definition blank :: "board \<Rightarrow> nat \<times> nat \<Rightarrow> bool" where
  "blank s x \<longleftrightarrow> cell (b s) x = 0"

text \<open>The number of candidates left on a square.\<close>

definition cands :: "board \<Rightarrow> nat \<times> nat \<Rightarrow> nat" where
  "cands s x = card (cell (p s) x)"


section \<open>What the search keeps true\<close>

text \<open>The board the constructor starts from, before \<open>updatePossibilities\<close> runs.\<close>

definition initBoard ::
  "int list list \<Rightarrow> nat list list \<Rightarrow> nat list list \<Rightarrow> nat list list \<Rightarrow>
     (nat \<times> nat) list list \<Rightarrow> (nat \<times> nat) list list \<Rightarrow> board" where
  "initBoard grid isGrey0 greyIndexes0 isPurple0 greys0 purples0 =
     \<lparr>b = grid, M = length grid, isGrey = isGrey0, greyIndexes = greyIndexes0,
      isPurple = isPurple0, greys = greys0, purples = purples0,
      p = replicate (length grid) (replicate (length grid) {1 .. int (length grid)})\<rparr>"

text \<open>
  \<open>effect s x key t\<close>: board \<open>t\<close> is what a returning call \<open>addNumber(key, x)\<close> makes
  of \<open>s\<close>, where \<open>x\<close> was blank or (when the constructor re-adds a clue) held \<open>key\<close>.
  On a grey square the key is written to the square and to its mirror square, which was
  blank or held the key; otherwise it is written to the square alone, and on a purple
  line every value already on the line has passed the range test.
\<close>

definition effect :: "board \<Rightarrow> nat \<times> nat \<Rightarrow> int \<Rightarrow> board \<Rightarrow> bool" where
  "effect s x key t \<longleftrightarrow>
     grows s t \<and> (cell (b s) x = 0 \<or> cell (b s) x = key) \<and>
     (if cell (isGrey s) x \<noteq> 0
      then b t = setCell (setCell (b s) (fst x) (snd x) key)
                   (fst (mirrorOf s x)) (snd (mirrorOf s x)) key \<and>
           (cell (b s) (mirrorOf s x) = 0 \<or> cell (b s) (mirrorOf s x) = key)
      else b t = setCell (b s) (fst x) (snd x) key \<and>
           (cell (isPurple s) x \<noteq> 0 \<longrightarrow>
              (\<forall>rc \<in> set (purples s ! (cell (isPurple s) x - 1)).
                 cell (b s) rc \<noteq> 0 \<and> rc \<noteq> x \<longrightarrow>
                 fits key (length (purples s ! (cell (isPurple s) x - 1))) (cell (b s) rc))))"

text \<open>
  The two invariants, relative to the set \<open>D\<close> of squares that have been through
  \<open>addNumber\<close> (all squares once the constructor is done): a grey square of \<open>D\<close> that
  holds a value has the same value on its mirror square, and a value on a purple square
  of \<open>D\<close> passes the range test against every other value on its line.
\<close>

definition mirrored :: "(nat \<times> nat) set \<Rightarrow> board \<Rightarrow> bool" where
  "mirrored D s \<longleftrightarrow>
     (\<forall>x \<in> D. cell (isGrey s) x \<noteq> 0 \<and> cell (b s) x \<noteq> 0 \<longrightarrow>
        cell (b s) (mirrorOf s x) = cell (b s) x)"

definition ranged :: "(nat \<times> nat) set \<Rightarrow> board \<Rightarrow> bool" where
  "ranged D s \<longleftrightarrow>
     (\<forall>line \<in> set (purples s). \<forall>x \<in> set line. \<forall>y \<in> set line.
        x \<in> D \<and> x \<noteq> y \<and> cell (b s) x \<noteq> 0 \<and> cell (b s) y \<noteq> 0 \<longrightarrow>
        fits (cell (b s) x) (length line) (cell (b s) y))"

definition good :: "(nat \<times> nat) set \<Rightarrow> board \<Rightarrow> bool" where
  "good D s \<longleftrightarrow>
     wf_board s \<and> grey_ok s \<and> D \<subseteq> set (allCells 9) \<and> mirrored D s \<and>
     (purple_ok s \<longrightarrow> ranged D s)"

text \<open>
  A grid in which each of 1 to 9 occurs exactly once in every row, column and square.
\<close>

definition validGrid :: "int list list \<Rightarrow> bool" where
  "validGrid g \<longleftrightarrow>
     (\<forall>grp \<in> set (groups 9). \<forall>v \<in> set [1 .. 9]. count_list (map (cell g) grp) v = 1)"

section \<open>Example boards\<close>

definition noLines :: "nat list list" where
  "noLines = replicate 9 (replicate 9 0)"

definition blankGrid :: "int list list" where
  "blankGrid = replicate 9 (replicate 9 0)"

text \<open>The board of the blank puzzle without lines, as the constructor leaves it.\<close>

definition freshBoard :: board where
  "freshBoard = \<lparr>b = blankGrid, M = 9, isGrey = noLines, greyIndexes = noLines,
     isPurple = noLines, greys = [], purples = [],
     p = replicate 9 (replicate 9 {1 .. 9})\<rparr>"

text \<open>The blank board with 5 written to the top left square.\<close>

definition fiveBoard :: board where
  "fiveBoard = freshBoard\<lparr>b := setCell blankGrid 0 0 5\<rparr>"

text \<open>A puzzle whose first row gives 1 to 8 and leaves the last square blank.\<close>

definition rowGrid :: "int list list" where
  "rowGrid = [1, 2, 3, 4, 5, 6, 7, 8, 0] # replicate 8 (replicate 9 0)"

text \<open>The blank board on which the square \<open>(0, 8)\<close> has the two candidates 8 and 9 left.\<close>

definition twoLeftBoard :: board where
  "twoLeftBoard = freshBoard\<lparr>p := setCell (p freshBoard) 0 8 {8, 9}\<rparr>"

text \<open>
  A puzzle with the clue 1 in the top left square and one purple line of length 2 through
  \<open>(0, 0)\<close> and \<open>(0, 1)\<close>.
\<close>

definition oneGrid :: "int list list" where
  "oneGrid = setCell blankGrid 0 0 1"

definition pairTable :: "nat list list" where
  "pairTable = [1, 1, 0, 0, 0, 0, 0, 0, 0] # replicate 8 (replicate 9 0)"

text \<open>
  The blank board with a grey line of length 3 along the diagonal squares \<open>(0, 0)\<close>,
  \<open>(4, 4)\<close>, \<open>(8, 8)\<close> and a purple line of length 2 on \<open>(0, 1)\<close>, \<open>(0, 2)\<close>.
\<close>

definition lineBoard :: board where
  "lineBoard = freshBoard
     \<lparr>isGrey := setCell (setCell (setCell noLines 0 0 1) 4 4 1) 8 8 1,
      greyIndexes := setCell (setCell noLines 4 4 1) 8 8 2,
      isPurple := setCell (setCell noLines 0 1 1) 0 2 1,
      greys := [[(0, 0), (4, 4), (8, 8)]],
      purples := [[(0, 1), (0, 2)]]\<rparr>"

text \<open>
  A puzzle with a grey line through \<open>(0, 3)\<close>, \<open>(4, 4)\<close>, \<open>(1, 0)\<close> and a purple line on
  \<open>(0, 0)\<close>, \<open>(0, 1)\<close>, \<open>(0, 2)\<close>.  The square \<open>(1, 0)\<close> is left to the mirror line and
  the square \<open>(0, 2)\<close> to the search; \<open>exSolved\<close> is the grid \<open>solve\<close> returns.
\<close>

definition exGrid :: "int list list" where
  "exGrid = [[1, 2, 0, 4, 5, 6, 7, 8, 9], [0, 5, 6, 7, 8, 9, 1, 2, 3], [7, 8, 9, 1, 2, 3, 4, 5, 6],
             [2, 3, 4, 5, 6, 7, 8, 9, 1], [5, 6, 7, 8, 9, 1, 2, 3, 4], [8, 9, 1, 2, 3, 4, 5, 6, 7],
             [3, 4, 5, 6, 7, 8, 9, 1, 2], [6, 7, 8, 9, 1, 2, 3, 4, 5], [9, 1, 2, 3, 4, 5, 6, 7, 8]]"

definition exSolved :: "int list list" where
  "exSolved = [[1, 2, 3, 4, 5, 6, 7, 8, 9], [4, 5, 6, 7, 8, 9, 1, 2, 3], [7, 8, 9, 1, 2, 3, 4, 5, 6],
             [2, 3, 4, 5, 6, 7, 8, 9, 1], [5, 6, 7, 8, 9, 1, 2, 3, 4], [8, 9, 1, 2, 3, 4, 5, 6, 7],
             [3, 4, 5, 6, 7, 8, 9, 1, 2], [6, 7, 8, 9, 1, 2, 3, 4, 5], [9, 1, 2, 3, 4, 5, 6, 7, 8]]"

definition exIsGrey :: "nat list list" where
  "exIsGrey = setCell (setCell (setCell noLines 0 3 1) 4 4 1) 1 0 1"

definition exGreyIndexes :: "nat list list" where
  "exGreyIndexes = setCell (setCell noLines 4 4 1) 1 0 2"

definition exIsPurple :: "nat list list" where
  "exIsPurple = setCell (setCell (setCell noLines 0 0 1) 0 1 1) 0 2 1"

definition exGreys :: "(nat \<times> nat) list list" where
  "exGreys = [[(0, 3), (4, 4), (1, 0)]]"

definition exPurples :: "(nat \<times> nat) list list" where
  "exPurples = [[(0, 0), (0, 1), (0, 2)]]"

text \<open>
  A puzzle with eight blanks and one grey line of length 2 from \<open>(0, 8)\<close> to \<open>(6, 5)\<close>.
  \<open>hardAnswer\<close> is a solution of it; \<open>hardReturned\<close> is the grid \<open>solve\<close> returns.
\<close>

definition hardGrid :: "int list list" where
  "hardGrid = [[2, 0, 9, 3, 6, 8, 7, 1, 0], [3, 0, 6, 9, 7, 1, 8, 2, 0], [7, 8, 1, 5, 4, 2, 6, 3, 9],
               [5, 1, 2, 7, 8, 3, 4, 9, 6], [8, 7, 4, 6, 2, 9, 1, 5, 3], [6, 9, 3, 1, 5, 4, 2, 7, 8],
               [9, 6, 0, 4, 1, 0, 3, 8, 2], [4, 2, 0, 8, 3, 0, 9, 6, 1], [1, 3, 8, 2, 9, 6, 5, 4, 7]]"

definition hardAnswer :: "int list list" where
  "hardAnswer = [[2, 4, 9, 3, 6, 8, 7, 1, 5], [3, 5, 6, 9, 7, 1, 8, 2, 4], [7, 8, 1, 5, 4, 2, 6, 3, 9],
               [5, 1, 2, 7, 8, 3, 4, 9, 6], [8, 7, 4, 6, 2, 9, 1, 5, 3], [6, 9, 3, 1, 5, 4, 2, 7, 8],
               [9, 6, 7, 4, 1, 5, 3, 8, 2], [4, 2, 5, 8, 3, 7, 9, 6, 1], [1, 3, 8, 2, 9, 6, 5, 4, 7]]"

definition hardReturned :: "int list list" where
  "hardReturned = [[2, 5, 9, 3, 6, 8, 7, 1, 4], [3, 4, 6, 9, 7, 1, 8, 2, 5], [7, 8, 1, 5, 4, 2, 6, 3, 9],
               [5, 1, 2, 7, 8, 3, 4, 9, 6], [8, 7, 4, 6, 2, 9, 1, 5, 3], [6, 9, 3, 1, 5, 4, 2, 7, 8],
               [9, 6, 5, 4, 1, 4, 3, 8, 2], [4, 2, 7, 8, 3, 5, 9, 6, 1], [1, 3, 8, 2, 9, 6, 5, 4, 7]]"

definition hardIsGrey :: "nat list list" where
  "hardIsGrey = setCell (setCell noLines 0 8 1) 6 5 1"

definition hardGreyIndexes :: "nat list list" where
  "hardGreyIndexes = setCell noLines 6 5 1"

text \<open>A full grid whose first row gives the clue 1 twice.\<close>

definition dupGrid :: "int list list" where
  "dupGrid = [[1, 1, 3, 4, 5, 6, 7, 8, 9], [4, 5, 6, 7, 8, 9, 1, 2, 3], [7, 8, 9, 1, 2, 3, 4, 5, 6],
             [2, 3, 4, 5, 6, 7, 8, 9, 1], [5, 6, 7, 8, 9, 1, 2, 3, 4], [8, 9, 1, 2, 3, 4, 5, 6, 7],
             [3, 4, 5, 6, 7, 8, 9, 1, 2], [6, 7, 8, 9, 1, 2, 3, 4, 5], [9, 1, 2, 3, 4, 5, 6, 7, 8]]"

section \<open>Loops that change nothing\<close>

lemma forEach_id:
  "(\<And>x. x \<in> set xs \<Longrightarrow> f x s = Some (Inr s)) \<Longrightarrow> forEach xs f s = Some (Inr s)"
  by (induction xs) auto

section \<open>Writing to a square that holds a value\<close>

text \<open>
  Claim C7.  On a square that already holds a value, \<open>addNumber\<close> with the same value
  returns and leaves the whole board (grid and candidate sets) as it was; with any other
  value it raises \<open>ImpossibleSetup\<close>, and the board is as it was as well.
\<close>

theorem addNumber_assigned:
  "b s ! row ! col \<noteq> 0 \<Longrightarrow>
   addNumber (Suc n) key row col s =
     (if key = b s ! row ! col then Some (Inr s) else Some (Inl (ImpossibleSetup, s)))"
  by simp

theorem addNumber_assigned_witness:
  "b fiveBoard ! 0 ! 0 \<noteq> 0 \<and>
   addNumber (Suc 0) 5 0 0 fiveBoard = Some (Inr fiveBoard) \<and>
   addNumber (Suc 0) 3 0 0 fiveBoard = Some (Inl (ImpossibleSetup, fiveBoard))"
proof -
  have v: "b fiveBoard ! 0 ! 0 = 5"
    by (simp add: fiveBoard_def setCell_def blankGrid_def)
  then have h: "b fiveBoard ! 0 ! 0 \<noteq> 0" by simp
  show ?thesis
    using h addNumber_assigned [OF h, of 0 5] addNumber_assigned [OF h, of 0 3]
    unfolding v by simp
qed

section \<open>The scan of the groups\<close>

lemma checkGroup_step:
  assumes "num \<noteq> 0"
  shows "(let l = filter (\<lambda>i. b t ! fst i ! snd i = num) grp
          in if length l = 1 then addNumber (Suc n) num (fst (l ! 0)) (snd (l ! 0)) t
             else Some (Inr t)) = Some (Inr t)"
proof -
  define l where "l = filter (\<lambda>i. b t ! fst i ! snd i = num) grp"
  show ?thesis
  proof (cases "length l = 1")
    case True
    then have "l ! 0 \<in> set l" by simp
    then have "b t ! fst (l ! 0) ! snd (l ! 0) = num" by (simp add: l_def)
    with True assms show ?thesis by (simp add: l_def [symmetric] Let_def)
  next
    case False
    then show ?thesis by (simp add: l_def [symmetric] Let_def)
  qed
qed

lemma checkGroup_id: "checkGroup (Suc n) grp s = Some (Inr s)"
  unfolding checkGroup_def
  by (rule forEach_id) (rule checkGroup_step, simp)

lemma check_id: "check (Suc n) s = Some (Inr s)"
  unfolding check_def by (rule forEach_id) (rule checkGroup_id)

text \<open>
  Claim C9.  On every board \<open>checkGroup\<close>, and with it the sweep \<open>check\<close> over all rows,
  columns and squares, returns normally and leaves the grid and every candidate set as
  they were: the only square it hands to \<open>addNumber\<close> already holds the scanned value.
\<close>

theorem checkGroup_noop:
  "checkGroup (Suc n) grp s = Some (Inr s) \<and> check (Suc n) s = Some (Inr s)"
proof
  show "checkGroup (Suc n) grp s = Some (Inr s)"
    unfolding checkGroup_def
    by (rule forEach_id) (rule checkGroup_step, simp)
  have "checkGroup (Suc n) g s = Some (Inr s)" for g
    unfolding checkGroup_def
    by (rule forEach_id) (rule checkGroup_step, simp)
  then show "check (Suc n) s = Some (Inr s)"
    unfolding check_def by (intro forEach_id)
qed

theorem checkGroup_noop_witness:
  "checkGroup (Suc 0) [(0, 0), (0, 1), (0, 2)] fiveBoard = Some (Inr fiveBoard) \<and>
   check (Suc 0) fiveBoard = Some (Inr fiveBoard)"
  using checkGroup_noop [of 0 "[(0, 0), (0, 1), (0, 2)]" fiveBoard]
  by simp

section \<open>What checkPossibility does after a removal\<close>

text \<open>
  Claim C3 says that \<open>checkPossibility(key, row, col)\<close>, called on a blank square right
  after \<open>removePossibility(key, row, col)\<close> took \<open>key\<close> out of its candidates, assigns
  the last candidate when one is left.  The code tests \<open>key in self.p[row][col]\<close> after
  the removal, so the call does nothing.  On the board where \<open>(0, 8)\<close> has the candidates
  8 and 9, removing 8 and checking leaves the square blank with the single candidate 9;
  and the constructor, given the row 1 to 8, leaves the ninth square of the row blank.
\<close>

theorem checkPossibility_after_remove:
  "checkPossibility (addNumber 5) 8 0 8 (removePossibility 8 0 8 twoLeftBoard) =
     Some (Inr (removePossibility 8 0 8 twoLeftBoard)) \<and>
   b (removePossibility 8 0 8 twoLeftBoard) ! 0 ! 8 = 0 \<and>
   p (removePossibility 8 0 8 twoLeftBoard) ! 0 ! 8 = {9} \<and>
   (case Board 2 rowGrid noLines noLines noLines [] [] of
      Some (Inr s) \<Rightarrow> b s ! 0 ! 8 = 0 \<and> p s ! 0 ! 8 = {9}
    | _ \<Rightarrow> False)"
  by code_simp

section \<open>The candidates a purple line removes\<close>

text \<open>
  Claim C4 says that writing a value to a square of a purple line of length L removes,
  on every other blank square of the line, each candidate outside the open interval
  (value - L, value + L), the candidate 9 included.  The upper loop is
  \<open>range(key+len(line), self.M)\<close> and stops at 8: with the clue 1 on a line of length 2
  the neighbour keeps the candidate 9.
\<close>

theorem purple_line_keeps_nine:
  "(case Board 2 oneGrid noLines noLines pairTable [] [[(0, 0), (0, 1)]] of
      Some (Inr s) \<Rightarrow> b s ! 0 ! 1 = 0 \<and> p s ! 0 ! 1 = {2, 9}
    | _ \<Rightarrow> False)"
  by code_simp

section \<open>Tables and removals\<close>

lemma tbl_iff: "tbl t \<longleftrightarrow> length t = 9 \<and> (\<forall>i<9. length (t ! i) = 9)"
  unfolding tbl_def by (auto simp: all_set_conv_all_nth)

lemma allCells_iff: "x \<in> set (allCells m) \<longleftrightarrow> fst x < m \<and> snd x < m"
  by (cases x) (force simp: allCells_def)

lemma inGrid_allCells: "inGrid x \<longleftrightarrow> x \<in> set (allCells 9)"
  by (simp add: inGrid_def allCells_iff)

lemma tbl_setCell [simp]: "tbl (setCell g r c v) = tbl g"
  unfolding tbl_iff setCell_def
  by (cases "r < length g") (auto simp: nth_list_update)

lemma nth_setCell:
  "tbl g \<Longrightarrow> r < 9 \<Longrightarrow> c < 9 \<Longrightarrow>
   setCell g r c v ! i ! j = (if i = r \<and> j = c then v else g ! i ! j)"
  unfolding tbl_iff setCell_def
  by (auto simp: nth_list_update)

lemma removePossibility_fields [simp]:
  "b (removePossibility k r c s) = b s"
  "M (removePossibility k r c s) = M s"
  "isGrey (removePossibility k r c s) = isGrey s"
  "greyIndexes (removePossibility k r c s) = greyIndexes s"
  "isPurple (removePossibility k r c s) = isPurple s"
  "greys (removePossibility k r c s) = greys s"
  "purples (removePossibility k r c s) = purples s"
  by (simp_all add: removePossibility_def)

lemma removePossibility_tbl [simp]: "tbl (p (removePossibility k r c s)) = tbl (p s)"
  by (simp add: removePossibility_def)

lemma removePossibility_nth:
  "tbl (p s) \<Longrightarrow> r < 9 \<Longrightarrow> c < 9 \<Longrightarrow>
   p (removePossibility k r c s) ! i ! j =
     (if i = r \<and> j = c \<and> b s ! i ! j = 0 then p s ! i ! j - {k} else p s ! i ! j)"
  unfolding removePossibility_def
  by (auto simp: nth_setCell)

lemma checkPossibility_settled:
  "settled key (r, c) s \<Longrightarrow> checkPossibility add key r c s = Some (Inr s)"
  by (auto simp: settled_def checkPossibility_def)

lemma removePossibility_settles:
  "tbl (p s) \<Longrightarrow> r < 9 \<Longrightarrow> c < 9 \<Longrightarrow> settled key (r, c) (removePossibility key r c s)"
  by (auto simp: settled_def removePossibility_nth)

lemma removeAll_p_simps [simp]:
  "removeAll_p [] s = s"
  "removeAll_p (kx # ks) s = removeAll_p ks (removePossibility (fst kx) (fst (snd kx)) (snd (snd kx)) s)"
  by (simp_all add: removeAll_p_def)

lemma removeAll_p_fields [simp]:
  "b (removeAll_p ks s) = b s"
  "M (removeAll_p ks s) = M s"
  "isGrey (removeAll_p ks s) = isGrey s"
  "greyIndexes (removeAll_p ks s) = greyIndexes s"
  "isPurple (removeAll_p ks s) = isPurple s"
  "greys (removeAll_p ks s) = greys s"
  "purples (removeAll_p ks s) = purples s"
  "tbl (p (removeAll_p ks s)) = tbl (p s)"
  by (induction ks arbitrary: s; simp)+

lemma removeAll_p_subset:
  "tbl (p s) \<Longrightarrow> \<forall>kx \<in> set ks. inGrid (snd kx) \<Longrightarrow> p (removeAll_p ks s) ! i ! j \<subseteq> p s ! i ! j"
proof (induction ks arbitrary: s)
  case Nil
  then show ?case by simp
next
  case (Cons kx ks)
  have "p (removeAll_p ks (removePossibility (fst kx) (fst (snd kx)) (snd (snd kx)) s)) ! i ! j
        \<subseteq> p (removePossibility (fst kx) (fst (snd kx)) (snd (snd kx)) s) ! i ! j"
    using Cons.prems by (intro Cons.IH) simp_all
  also have "\<dots> \<subseteq> p s ! i ! j"
    using Cons.prems by (auto simp: removePossibility_nth inGrid_def)
  finally show ?case by simp
qed

lemma removeAll_p_keeps_settled:
  "tbl (p s) \<Longrightarrow> \<forall>kx \<in> set ks. inGrid (snd kx) \<Longrightarrow> settled k x s \<Longrightarrow> settled k x (removeAll_p ks s)"
  using removeAll_p_subset [of s ks "fst x" "snd x"] by (auto simp: settled_def)

lemma removeAll_p_settles:
  "tbl (p s) \<Longrightarrow> \<forall>kx \<in> set ks. inGrid (snd kx) \<Longrightarrow>
   \<forall>kx \<in> set ks. settled (fst kx) (snd kx) (removeAll_p ks s)"
proof (induction ks arbitrary: s)
  case Nil
  then show ?case by simp
next
  case (Cons kx ks)
  let ?s = "removePossibility (fst kx) (fst (snd kx)) (snd (snd kx)) s"
  have 1: "settled (fst kx) (snd kx) ?s"
    using Cons.prems removePossibility_settles [of s "fst (snd kx)" "snd (snd kx)" "fst kx"]
    by (simp add: inGrid_def)
  have "settled (fst kx) (snd kx) (removeAll_p ks ?s)"
    using Cons.prems by (intro removeAll_p_keeps_settled 1) simp_all
  moreover have "\<forall>kx \<in> set ks. settled (fst kx) (snd kx) (removeAll_p ks ?s)"
    using Cons.prems by (intro Cons.IH) simp_all
  ultimately show ?case by simp
qed

lemma forEach_map: "forEach (map g xs) f s = forEach xs (\<lambda>x. f (g x)) s"
  by (induction xs arbitrary: s) (auto split: option.splits sum.splits)

text \<open>After a batch of removals, the batch of checks that follows it changes nothing.\<close>

lemma checks_after_removals:
  assumes "tbl (p s)" and "\<forall>kx \<in> set ks. inGrid (snd kx)"
  shows "forEach ks (\<lambda>kx. checkPossibility add (fst kx) (fst (snd kx)) (snd (snd kx)))
           (removeAll_p ks s) = Some (Inr (removeAll_p ks s))"
proof (rule forEach_id)
  fix kx assume "kx \<in> set ks"
  then have "settled (fst kx) (snd kx) (removeAll_p ks s)"
    using removeAll_p_settles [OF assms] by blast
  then show "checkPossibility add (fst kx) (fst (snd kx)) (snd (snd kx)) (removeAll_p ks s)
             = Some (Inr (removeAll_p ks s))"
    using checkPossibility_settled [of "fst kx" "fst (snd kx)" "snd (snd kx)"] by simp
qed


section \<open>addNumber on a blank square\<close>

lemma rowColCells_inGrid: "row < 9 \<Longrightarrow> col < 9 \<Longrightarrow> x \<in> set (rowColCells 9 row col) \<Longrightarrow> inGrid x"
  by (auto simp: rowColCells_def inGrid_def)

lemma squareCells_inGrid: "row < 9 \<Longrightarrow> col < 9 \<Longrightarrow> x \<in> set (squareCells row col) \<Longrightarrow> inGrid x"
proof -
  assume "row < 9" "col < 9" "x \<in> set (squareCells row col)"
  then have "fst x < row - row mod 3 + 3" "snd x < col - col mod 3 + 3"
    by (auto simp: squareCells_def)
  moreover have "row - row mod 3 + 3 \<le> 9" "col - col mod 3 + 3 \<le> 9"
    using \<open>row < 9\<close> \<open>col < 9\<close> by presburger+
  ultimately show ?thesis by (simp add: inGrid_def)
qed

lemma fold_removals:
  "fold (\<lambda>x. removePossibility (f x) (fst (g x)) (snd (g x))) xs s =
   removeAll_p (map (\<lambda>x. (f x, g x)) xs) s"
  by (induction xs arbitrary: s) simp_all

lemma addNumber_blank:
  assumes "wf_board s" "row < 9" "col < 9" "b s ! row ! col = 0"
  shows "addNumber (Suc n) key row col s =
     (let s3 = place key row col s in
      if isGrey s ! row ! col \<noteq> 0
      then (let line = greys s ! (isGrey s ! row ! col - 1);
                mirror = line ! (length line - greyIndexes s ! row ! col - 1)
            in addNumber n key (fst mirror) (snd mirror) s3)
      else if isPurple s ! row ! col \<noteq> 0
      then (let line = purples s ! (isPurple s ! row ! col - 1)
            in forEach line (purpleStep (addNumber n) key row col (length line)) s3)
      else Some (Inr s3))"
proof -
  let ?cells = "rowColCells 9 row col @ squareCells row col"
  let ?s1 = "s\<lparr>b := setCell (b s) row col key\<rparr>"
  have M9: "M s = 9" and tp: "tbl (p ?s1)" using assms(1) by (simp_all add: wf_board_def)
  have ing: "\<forall>kx \<in> set (map (Pair key) ?cells). inGrid (snd kx)"
    using assms(2,3) by (auto dest: rowColCells_inGrid squareCells_inGrid)
  have rem: "fold (\<lambda>rc. removePossibility key (fst rc) (snd rc)) ?cells ?s1 = place key row col s"
    using fold_removals [of "\<lambda>_. key" "\<lambda>x. x" ?cells ?s1] by (simp add: place_def)
  have "forEach (map (Pair key) ?cells)
          (\<lambda>kx. checkPossibility (addNumber n) (fst kx) (fst (snd kx)) (snd (snd kx)))
          (place key row col s) = Some (Inr (place key row col s))"
    unfolding place_def by (rule checks_after_removals [OF tp ing])
  then have chk: "forEach ?cells (\<lambda>rc. checkPossibility (addNumber n) key (fst rc) (snd rc))
               (place key row col s) = Some (Inr (place key row col s))"
    by (simp only: forEach_map fst_conv snd_conv)
  have fields: "isGrey (place key row col s) = isGrey s" "isPurple (place key row col s) = isPurple s"
    "greys (place key row col s) = greys s" "purples (place key row col s) = purples s"
    "greyIndexes (place key row col s) = greyIndexes s"
    by (simp_all add: place_def)
  have M1: "M ?s1 = 9" using M9 by simp
  have b1: "(b s ! row ! col \<noteq> 0) = False" using assms(4) by simp
  show ?thesis
    unfolding addNumber.simps Let_def M1 b1 if_False rem chk option.case sum.case fields
    by (rule refl)
qed


lemma purpleStep_unfold:
  assumes "tbl (p s)" "inGrid rc" "M s = 9"
  shows "purpleStep add key row col L rc s =
     (if b s ! fst rc ! snd rc \<noteq> 0 \<and> (fst rc \<noteq> row \<or> snd rc \<noteq> col)
      then (if b s ! fst rc ! snd rc = key \<or> b s ! fst rc ! snd rc \<le> key - int L \<or>
               b s ! fst rc ! snd rc \<ge> key + int L
            then Some (Inl (ImpossibleSetup, s)) else Some (Inr s))
      else Some (Inr (removeAll_p (map (\<lambda>i. (i, rc)) (purpleKeys key L)) s)))"
proof -
  let ?ks = "map (\<lambda>i. (i, rc)) (purpleKeys key L)"
  have ing: "\<forall>kx \<in> set ?ks. inGrid (snd kx)" using assms(2) by simp
  have rem: "fold (\<lambda>i. removePossibility i (fst rc) (snd rc)) (purpleKeys key L) s = removeAll_p ?ks s"
    using fold_removals [of "\<lambda>i. i" "\<lambda>_. rc" "purpleKeys key L" s] by simp
  have "forEach ?ks (\<lambda>kx. checkPossibility add (fst kx) (fst (snd kx)) (snd (snd kx)))
          (removeAll_p ?ks s) = Some (Inr (removeAll_p ?ks s))"
    by (rule checks_after_removals [OF assms(1) ing])
  then have chk: "forEach (purpleKeys key L) (\<lambda>i. checkPossibility add i (fst rc) (snd rc))
          (removeAll_p ?ks s) = Some (Inr (removeAll_p ?ks s))"
    by (simp only: forEach_map fst_conv snd_conv)
  have M8: "int (M s) - 1 = 8" using assms(3) by simp
  show ?thesis
    unfolding purpleStep_def Let_def M8 purpleKeys_def [symmetric] rem chk
    by (rule refl)
qed

lemma grows_refl: "tbl (b s) \<Longrightarrow> tbl (p s) \<Longrightarrow> grows s s"
  by (simp add: grows_def)

lemma grows_trans: "grows s t \<Longrightarrow> grows t u \<Longrightarrow> grows s u"
  unfolding grows_def by (auto simp: allCells_iff)

lemma grows_removeAll_p:
  assumes "tbl (b s)" "tbl (p s)" "\<forall>kx \<in> set ks. inGrid (snd kx)"
  shows "grows s (removeAll_p ks s)"
  using assms removeAll_p_subset [OF assms(2,3)] by (simp add: grows_def)

lemma grows_place:
  assumes "wf_board s" "row < 9" "col < 9" "b s ! row ! col = 0"
  shows "grows s (place key row col s)"
proof -
  let ?s1 = "s\<lparr>b := setCell (b s) row col key\<rparr>"
  have t: "tbl (b s)" "tbl (p s)" using assms(1) by (simp_all add: wf_board_def)
  have "grows s ?s1"
    using t assms(2-4) by (auto simp: grows_def nth_setCell)
  moreover have "grows ?s1 (place key row col s)"
    unfolding place_def using t assms(2,3)
    by (intro grows_removeAll_p) (auto dest: rowColCells_inGrid squareCells_inGrid)
  ultimately show ?thesis by (rule grows_trans)
qed

lemma place_b: "b (place key row col s) = setCell (b s) row col key"
  by (simp add: place_def)

lemma grows_wf:
  assumes "wf_board s" "grows s t"
  shows "wf_board t"
proof -
  have eq: "M t = M s" "isGrey t = isGrey s" "greyIndexes t = greyIndexes s"
    "isPurple t = isPurple s" "greys t = greys s" "purples t = purples s"
    and t: "tbl (b t)" "tbl (p t)"
    and sub: "\<And>x. x \<in> set (allCells 9) \<Longrightarrow> cell (p t) x \<subseteq> cell (p s) x"
    using assms(2) by (simp_all add: grows_def)
  have "cell (p t) x \<subseteq> {1 .. 9}" if "x \<in> set (allCells 9)" for x
    using sub [OF that] assms(1) that unfolding wf_board_def by blast
  then show ?thesis
    using assms(1) t unfolding wf_board_def eq by simp
qed

lemma filter_length_mono:
  "(\<And>x. x \<in> set xs \<Longrightarrow> P x \<Longrightarrow> Q x) \<Longrightarrow> length (filter P xs) \<le> length (filter Q xs)"
  by (induction xs) auto

lemma filter_length_less:
  "(\<And>x. x \<in> set xs \<Longrightarrow> P x \<Longrightarrow> Q x) \<Longrightarrow> z \<in> set xs \<Longrightarrow> Q z \<Longrightarrow> \<not> P z \<Longrightarrow>
   length (filter P xs) < length (filter Q xs)"
proof (induction xs)
  case Nil
  then show ?case by simp
next
  case (Cons a xs)
  show ?case
  proof (cases "z = a")
    case True
    have "length (filter P xs) \<le> length (filter Q xs)"
      using Cons.prems(1) by (intro filter_length_mono) auto
    with True Cons.prems show ?thesis by simp
  next
    case False
    then have "length (filter P xs) < length (filter Q xs)"
      using Cons.prems by (intro Cons.IH) auto
    with Cons.prems(1) [of a] show ?thesis by auto
  qed
qed

lemma grows_emptyCells: "grows s t \<Longrightarrow> length (emptyCells t) \<le> length (emptyCells s)"
  unfolding emptyCells_def
  by (rule filter_length_mono) (auto simp: grows_def)

lemma place_emptyCells:
  assumes "wf_board s" "row < 9" "col < 9" "b s ! row ! col = 0" "key \<noteq> 0"
  shows "length (emptyCells (place key row col s)) < length (emptyCells s)"
proof -
  have g: "grows s (place key row col s)" by (rule grows_place [OF assms(1-4)])
  have t: "tbl (b s)" using assms(1) by (simp add: wf_board_def)
  show ?thesis
    unfolding emptyCells_def
  proof (rule filter_length_less [where z = "(row, col)"])
    fix x assume "x \<in> set (allCells 9)" "cell (b (place key row col s)) x = 0"
    then show "cell (b s) x = 0" using g by (auto simp: grows_def)
  next
    show "(row, col) \<in> set (allCells 9)" using assms(2,3) by (simp add: allCells_iff)
    show "cell (b s) (row, col) = 0" using assms(4) by simp
    show "cell (b (place key row col s)) (row, col) \<noteq> 0"
      using t assms(2,3,5) by (simp add: place_b nth_setCell)
  qed
qed

lemma purple_loop_total:
  assumes "wf_board s" "\<forall>x \<in> set line. inGrid x"
  shows "\<exists>res. forEach line (purpleStep add key row col L) s = Some res \<and> grows s (boardOf res)"
  using assms
proof (induction line arbitrary: s)
  case Nil
  then show ?case by (simp add: grows_refl wf_board_def)
next
  case (Cons rc line)
  have t: "tbl (b s)" "tbl (p s)" "M s = 9" using Cons.prems(1) by (simp_all add: wf_board_def)
  have rc: "inGrid rc" using Cons.prems(2) by simp
  note u = purpleStep_unfold [OF t(2) rc t(3), of add key row col L]
  let ?t = "removeAll_p (map (\<lambda>i. (i, rc)) (purpleKeys key L)) s"
  have "purpleStep add key row col L rc s = Some (Inl (ImpossibleSetup, s)) \<or>
        purpleStep add key row col L rc s = Some (Inr s) \<or>
        purpleStep add key row col L rc s = Some (Inr ?t)"
    unfolding u by simp
  then consider (raise) "purpleStep add key row col L rc s = Some (Inl (ImpossibleSetup, s))"
    | (same) "purpleStep add key row col L rc s = Some (Inr s)"
    | (rem) "purpleStep add key row col L rc s = Some (Inr ?t)"
    by blast
  then show ?case
  proof cases
    case raise
    then show ?thesis by (simp add: grows_refl t)
  next
    case same
    then show ?thesis using Cons.IH [of s] Cons.prems by simp
  next
    case rem
    have g: "grows s ?t" using t rc by (intro grows_removeAll_p) simp_all
    then have "wf_board ?t" using Cons.prems(1) grows_wf by blast
    then obtain res where "forEach line (purpleStep add key row col L) ?t = Some res"
      "grows ?t (boardOf res)" using Cons.IH [of ?t] Cons.prems(2) by auto
    with rem g show ?thesis by (auto intro: grows_trans)
  qed
qed

lemma mirror_inGrid:
  assumes "wf_board s" "row < 9" "col < 9" "isGrey s ! row ! col \<noteq> 0"
  shows "inGrid (greys s ! (isGrey s ! row ! col - 1) !
           (length (greys s ! (isGrey s ! row ! col - 1)) - greyIndexes s ! row ! col - 1))"
proof -
  let ?line = "greys s ! (isGrey s ! row ! col - 1)"
  have rc: "(row, col) \<in> set (allCells 9)" using assms(2,3) by (simp add: allCells_iff)
  have "isGrey s ! row ! col \<le> length (greys s)" "greyIndexes s ! row ! col < length ?line"
    using assms(1,4) rc unfolding wf_board_def by (metis fst_conv snd_conv)+
  then have "?line \<in> set (greys s)"
    "?line ! (length ?line - greyIndexes s ! row ! col - 1) \<in> set ?line"
    using assms(4) by (auto intro!: nth_mem)
  then show ?thesis using assms(1) unfolding wf_board_def by blast
qed

lemma purple_line_inGrid:
  assumes "wf_board s" "row < 9" "col < 9" "isPurple s ! row ! col \<noteq> 0"
  shows "\<forall>x \<in> set (purples s ! (isPurple s ! row ! col - 1)). inGrid x"
proof -
  have rc: "(row, col) \<in> set (allCells 9)" using assms(2,3) by (simp add: allCells_iff)
  have "isPurple s ! row ! col \<le> length (purples s)"
    using assms(1) rc unfolding wf_board_def by (metis fst_conv snd_conv)
  then have "purples s ! (isPurple s ! row ! col - 1) \<in> set (purples s)"
    using assms(4) by (auto intro!: nth_mem)
  then show ?thesis using assms(1) unfolding wf_board_def by blast
qed

lemma addNumber_total:
  "wf_board s \<Longrightarrow> row < 9 \<Longrightarrow> col < 9 \<Longrightarrow> key \<noteq> 0 \<Longrightarrow> length (emptyCells s) < n \<Longrightarrow>
   \<exists>res. addNumber n key row col s = Some res \<and> grows s (boardOf res)"
proof (induction n arbitrary: s row col)
  case 0
  then show ?case by simp
next
  case (Suc n)
  have t: "tbl (b s)" "tbl (p s)" using Suc.prems(1) by (simp_all add: wf_board_def)
  show ?case
  proof (cases "b s ! row ! col = 0")
    case False
    then show ?thesis by (simp add: grows_refl t)
  next
    case True
    let ?s3 = "place key row col s"
    note u = addNumber_blank [OF Suc.prems(1-3) True, of n key]
    have g: "grows s ?s3" by (rule grows_place [OF Suc.prems(1-3) True])
    have wf3: "wf_board ?s3" using Suc.prems(1) g by (rule grows_wf)
    have less: "length (emptyCells ?s3) < n"
      using place_emptyCells [OF Suc.prems(1-3) True Suc.prems(4)] Suc.prems(5) by simp
    consider (grey) "isGrey s ! row ! col \<noteq> 0"
      | (purple) "isGrey s ! row ! col = 0" "isPurple s ! row ! col \<noteq> 0"
      | (plain) "isGrey s ! row ! col = 0" "isPurple s ! row ! col = 0" by blast
    then show ?thesis
    proof cases
      case grey
      let ?m = "greys s ! (isGrey s ! row ! col - 1) !
           (length (greys s ! (isGrey s ! row ! col - 1)) - greyIndexes s ! row ! col - 1)"
      have "inGrid ?m" by (rule mirror_inGrid [OF Suc.prems(1-3) grey])
      then have "fst ?m < 9" "snd ?m < 9" by (simp_all add: inGrid_def)
      from Suc.IH [OF wf3 this Suc.prems(4) less]
      obtain res where "addNumber n key (fst ?m) (snd ?m) ?s3 = Some res" "grows ?s3 (boardOf res)"
        by blast
      with g grey show ?thesis unfolding u Let_def by (auto intro: grows_trans)
    next
      case purple
      let ?line = "purples s ! (isPurple s ! row ! col - 1)"
      have "\<forall>x \<in> set ?line. inGrid x" by (rule purple_line_inGrid [OF Suc.prems(1-3) purple(2)])
      from purple_loop_total [OF wf3 this, of "addNumber n" key row col "length ?line"]
      obtain res where "forEach ?line (purpleStep (addNumber n) key row col (length ?line)) ?s3 = Some res"
        "grows ?s3 (boardOf res)" by blast
      with g purple show ?thesis unfolding u Let_def by (auto intro: grows_trans)
    next
      case plain
      with g show ?thesis unfolding u Let_def by simp
    qed
  qed
qed


section \<open>Termination of addNumber\<close>

lemma length_allCells: "length (allCells m) = m * m"
  by (simp add: allCells_def length_concat comp_def sum_list_triv)

lemma emptyCells_le: "length (emptyCells s) \<le> 81"
  using length_filter_le [of "\<lambda>x. cell (b s) x = 0" "allCells 9"]
  by (simp add: emptyCells_def length_allCells)

text \<open>
  Claim C10.  Every call of \<open>addNumber\<close> with a non-zero key on a well-formed board
  terminates: a recursive call either finds its square taken and returns or raises at
  once, or first writes to a blank square, so fuel exceeding the number of blank squares,
  which is at most 81, is never used up; and the call leaves no more blank squares than
  it found.
\<close>

theorem addNumber_terminates:
  assumes "wf_board s" "row < 9" "col < 9" "key \<noteq> 0"
  shows "length (emptyCells s) \<le> 81 \<and>
         (\<forall>fuel > length (emptyCells s).
            \<exists>res. addNumber fuel key row col s = Some res \<and>
                  length (emptyCells (boardOf res)) \<le> length (emptyCells s))"
proof (intro conjI allI impI)
  show "length (emptyCells s) \<le> 81" by (rule emptyCells_le)
next
  fix fuel assume "length (emptyCells s) < fuel"
  from addNumber_total [OF assms this]
  obtain res where "addNumber fuel key row col s = Some res" "grows s (boardOf res)" by blast
  then show "\<exists>res. addNumber fuel key row col s = Some res \<and>
                  length (emptyCells (boardOf res)) \<le> length (emptyCells s)"
    using grows_emptyCells by blast
qed

theorem addNumber_terminates_witness:
  "wf_board lineBoard \<and> (0::nat) < 9 \<and> (5::int) \<noteq> 0 \<and>
   length (emptyCells lineBoard) < 82 \<and>
   (\<exists>res. addNumber 82 5 0 0 lineBoard = Some res \<and>
          length (emptyCells (boardOf res)) \<le> length (emptyCells lineBoard))"
proof -
  have w: "wf_board lineBoard" by code_simp
  have e: "length (emptyCells lineBoard) < 82" using emptyCells_le [of lineBoard] by simp
  have k: "(5::int) \<noteq> 0" by simp
  show ?thesis
    using addNumber_terminates [OF w _ _ k, of 0 0] w e by simp
qed

section \<open>What a returning call of addNumber has done\<close>

lemma mirror_props:
  assumes "wf_board s" "grey_ok s" "x \<in> set (allCells 9)" "cell (isGrey s) x \<noteq> 0"
  shows "mirrorOf s x \<in> set (allCells 9)" "cell (isGrey s) (mirrorOf s x) \<noteq> 0"
    "mirrorOf s (mirrorOf s x) = x"
proof -
  define g where "g = cell (isGrey s) x - 1"
  define line where "line = greys s ! g"
  define j where "j = cell (greyIndexes s) x"
  have g: "g < length (greys s)" and j: "j < length line"
    using assms(1,3,4) unfolding wf_board_def g_def line_def j_def by force+
  have y: "mirrorOf s x = line ! (length line - j - 1)"
    by (simp add: mirrorOf_def g_def line_def j_def)
  have i: "length line - j - 1 < length line" using j by simp
  have "line \<in> set (greys s)" using g by (simp add: line_def)
  then have "inGrid (line ! (length line - j - 1))"
    using assms(1) i unfolding wf_board_def by (meson nth_mem)
  then show "mirrorOf s x \<in> set (allCells 9)" by (simp add: y inGrid_allCells)
  have t: "cell (isGrey s) (line ! (length line - j - 1)) = g + 1"
    "cell (greyIndexes s) (line ! (length line - j - 1)) = length line - j - 1"
    using assms(2) g i unfolding grey_ok_def line_def by simp_all
  then show "cell (isGrey s) (mirrorOf s x) \<noteq> 0" by (simp add: y)
  have "line ! j = x"
    using assms(2,3,4) unfolding grey_ok_def line_def g_def j_def by blast
  moreover have "length line - (length line - j - 1) - 1 = j" using j by simp
  ultimately show "mirrorOf s (mirrorOf s x) = x"
    unfolding mirrorOf_def [of s "mirrorOf s x"] unfolding y t
    by (simp add: line_def)
qed

lemma addNumber_grows:
  "wf_board s \<Longrightarrow> row < 9 \<Longrightarrow> col < 9 \<Longrightarrow> addNumber n key row col s = Some res \<Longrightarrow>
   grows s (boardOf res)"
proof (induction n arbitrary: s row col res)
  case 0
  then show ?case by simp
next
  case (Suc n)
  have t: "tbl (b s)" "tbl (p s)" using Suc.prems(1) by (simp_all add: wf_board_def)
  show ?case
  proof (cases "b s ! row ! col = 0")
    case False
    then show ?thesis using Suc.prems(4) by (auto simp: grows_refl t split: if_splits)
  next
    case True
    let ?s3 = "place key row col s"
    note u = addNumber_blank [OF Suc.prems(1-3) True, of n key]
    have g: "grows s ?s3" by (rule grows_place [OF Suc.prems(1-3) True])
    have wf3: "wf_board ?s3" using Suc.prems(1) g by (rule grows_wf)
    consider (grey) "isGrey s ! row ! col \<noteq> 0"
      | (purple) "isGrey s ! row ! col = 0" "isPurple s ! row ! col \<noteq> 0"
      | (plain) "isGrey s ! row ! col = 0" "isPurple s ! row ! col = 0" by blast
    then show ?thesis
    proof cases
      case grey
      let ?m = "greys s ! (isGrey s ! row ! col - 1) !
           (length (greys s ! (isGrey s ! row ! col - 1)) - greyIndexes s ! row ! col - 1)"
      have "inGrid ?m" by (rule mirror_inGrid [OF Suc.prems(1-3) grey])
      then have m: "fst ?m < 9" "snd ?m < 9" by (simp_all add: inGrid_def)
      have "addNumber n key (fst ?m) (snd ?m) ?s3 = Some res"
        using Suc.prems(4) grey unfolding u Let_def by simp
      from Suc.IH [OF wf3 m this] g show ?thesis by (rule grows_trans [rotated])
    next
      case purple
      let ?line = "purples s ! (isPurple s ! row ! col - 1)"
      have "\<forall>x \<in> set ?line. inGrid x" by (rule purple_line_inGrid [OF Suc.prems(1-3) purple(2)])
      from purple_loop_total [OF wf3 this, of "addNumber n" key row col "length ?line"]
      obtain res' where "forEach ?line (purpleStep (addNumber n) key row col (length ?line)) ?s3 = Some res'"
        "grows ?s3 (boardOf res')" by blast
      moreover have "forEach ?line (purpleStep (addNumber n) key row col (length ?line)) ?s3 = Some res"
        using Suc.prems(4) purple unfolding u Let_def by simp
      ultimately show ?thesis using g by (auto intro: grows_trans)
    next
      case plain
      with g Suc.prems(4) show ?thesis unfolding u Let_def by auto
    qed
  qed
qed

lemma purple_loop_success:
  assumes "wf_board s" "\<forall>x \<in> set line. inGrid x"
    "forEach line (purpleStep add key row col L) s = Some (Inr t)"
  shows "b t = b s \<and>
         (\<forall>rc \<in> set line. cell (b s) rc \<noteq> 0 \<and> rc \<noteq> (row, col) \<longrightarrow> fits key L (cell (b s) rc))"
  using assms
proof (induction line arbitrary: s)
  case Nil
  then show ?case by simp
next
  case (Cons rc line)
  have t: "tbl (b s)" "tbl (p s)" "M s = 9" using Cons.prems(1) by (simp_all add: wf_board_def)
  have rc: "inGrid rc" using Cons.prems(2) by simp
  note u = purpleStep_unfold [OF t(2) rc t(3), of add key row col L]
  let ?t = "removeAll_p (map (\<lambda>i. (i, rc)) (purpleKeys key L)) s"
  show ?case
  proof (cases "cell (b s) rc \<noteq> 0 \<and> rc \<noteq> (row, col)")
    case True
    then have c: "b s ! fst rc ! snd rc \<noteq> 0 \<and> (fst rc \<noteq> row \<or> snd rc \<noteq> col)"
      by (cases rc) auto
    have f: "fits key L (cell (b s) rc)"
      using Cons.prems(3) c unfolding forEach.simps u fits_def
      by (auto split: if_splits)
    then have "purpleStep add key row col L rc s = Some (Inr s)"
      using c unfolding u fits_def by auto
    then have "forEach line (purpleStep add key row col L) s = Some (Inr t)"
      using Cons.prems(3) by simp
    from Cons.IH [OF Cons.prems(1) _ this] Cons.prems(2) f show ?thesis by simp
  next
    case False
    then have c: "\<not> (b s ! fst rc ! snd rc \<noteq> 0 \<and> (fst rc \<noteq> row \<or> snd rc \<noteq> col))"
      by (cases rc) auto
    have st: "purpleStep add key row col L rc s = Some (Inr ?t)"
      using c unfolding u by presburger
    have g: "grows s ?t" using t rc by (intro grows_removeAll_p) simp_all
    then have wft: "wf_board ?t" using Cons.prems(1) grows_wf by blast
    have "forEach line (purpleStep add key row col L) ?t = Some (Inr t)"
      using Cons.prems(3) st by simp
    from Cons.IH [OF wft _ this] Cons.prems(2) False show ?thesis by auto
  qed
qed

lemma setCell_same: "tbl g \<Longrightarrow> r < 9 \<Longrightarrow> c < 9 \<Longrightarrow> g ! r ! c = v \<Longrightarrow> setCell g r c v = g"
  unfolding setCell_def tbl_iff by (metis list_update_id)

lemma setCell_twice: "setCell (setCell g r c v) r c w = setCell g r c w"
  unfolding setCell_def
  by (cases "r < length g") (simp_all add: list_update_beyond)

lemma addNumber_blank_grey:
  assumes "wf_board s" "row < 9" "col < 9" "b s ! row ! col = 0" "isGrey s ! row ! col \<noteq> 0"
  shows "addNumber (Suc n) key row col s =
         addNumber n key (fst (mirrorOf s (row, col))) (snd (mirrorOf s (row, col)))
           (place key row col s)"
  unfolding addNumber_blank [OF assms(1-4)] Let_def mirrorOf_def using assms(5) by simp

lemma addNumber_blank_purple:
  assumes "wf_board s" "row < 9" "col < 9" "b s ! row ! col = 0"
    "isGrey s ! row ! col = 0" "isPurple s ! row ! col \<noteq> 0"
  shows "addNumber (Suc n) key row col s =
         forEach (purples s ! (isPurple s ! row ! col - 1))
           (purpleStep (addNumber n) key row col (length (purples s ! (isPurple s ! row ! col - 1))))
           (place key row col s)"
  unfolding addNumber_blank [OF assms(1-4)] Let_def using assms(5,6) by simp

lemma addNumber_blank_plain:
  assumes "wf_board s" "row < 9" "col < 9" "b s ! row ! col = 0"
    "isGrey s ! row ! col = 0" "isPurple s ! row ! col = 0"
  shows "addNumber (Suc n) key row col s = Some (Inr (place key row col s))"
  unfolding addNumber_blank [OF assms(1-4)] Let_def using assms(5,6) by simp

text \<open>
  The effect of a call of \<open>addNumber\<close> that returns, on a blank square of a board whose
  grey tables agree with the grey lines.
\<close>

lemma addNumber_effect_plain:
  assumes "wf_board s" "row < 9" "col < 9" "b s ! row ! col = 0" "isGrey s ! row ! col = 0"
    "addNumber n key row col s = Some (Inr t)"
  shows "b t = setCell (b s) row col key"
    "isPurple s ! row ! col \<noteq> 0 \<Longrightarrow>
       \<forall>rc \<in> set (purples s ! (isPurple s ! row ! col - 1)).
         cell (b s) rc \<noteq> 0 \<and> rc \<noteq> (row, col) \<longrightarrow>
         fits key (length (purples s ! (isPurple s ! row ! col - 1))) (cell (b s) rc)"
proof -
  obtain m where n: "n = Suc m" using assms(6) by (cases n) auto
  let ?s3 = "place key row col s"
  let ?line = "purples s ! (isPurple s ! row ! col - 1)"
  have g: "grows s ?s3" by (rule grows_place [OF assms(1-4)])
  have wf3: "wf_board ?s3" using assms(1) g by (rule grows_wf)
  have tb: "tbl (b s)" using assms(1) by (simp add: wf_board_def)
  have b3: "b ?s3 = setCell (b s) row col key" by (rule place_b)
  have loop: "b t = b ?s3 \<and>
     (\<forall>rc \<in> set ?line. cell (b ?s3) rc \<noteq> 0 \<and> rc \<noteq> (row, col) \<longrightarrow>
         fits key (length ?line) (cell (b ?s3) rc))" if pu: "isPurple s ! row ! col \<noteq> 0"
  proof -
    have ing: "\<forall>x \<in> set ?line. inGrid x" by (rule purple_line_inGrid [OF assms(1-3) pu])
    have "forEach ?line (purpleStep (addNumber m) key row col (length ?line)) ?s3 = Some (Inr t)"
      using assms(6) unfolding n addNumber_blank_purple [OF assms(1-5) pu] .
    from purple_loop_success [OF wf3 ing this] show ?thesis .
  qed
  show "b t = setCell (b s) row col key"
  proof (cases "isPurple s ! row ! col = 0")
    case True
    then show ?thesis
      using assms(6) unfolding n addNumber_blank_plain [OF assms(1-5) True] by (auto simp: b3)
  next
    case False
    then show ?thesis using loop by (simp add: b3)
  qed
  show "\<forall>rc \<in> set ?line. cell (b s) rc \<noteq> 0 \<and> rc \<noteq> (row, col) \<longrightarrow>
               fits key (length ?line) (cell (b s) rc)" if pu: "isPurple s ! row ! col \<noteq> 0"
  proof (intro ballI impI)
    fix rc assume rc: "rc \<in> set ?line" and c: "cell (b s) rc \<noteq> 0 \<and> rc \<noteq> (row, col)"
    then have "cell (b ?s3) rc = cell (b s) rc"
      using tb assms(2,3) by (cases rc) (auto simp: b3 nth_setCell)
    with loop [OF pu] rc c show "fits key (length ?line) (cell (b s) rc)" by metis
  qed
qed

lemma addNumber_effect_grey:
  assumes "wf_board s" "grey_ok s" "row < 9" "col < 9" "key \<noteq> 0" "b s ! row ! col = 0"
    "isGrey s ! row ! col \<noteq> 0" "addNumber n key row col s = Some (Inr t)"
  shows "b t = setCell (setCell (b s) row col key)
               (fst (mirrorOf s (row, col))) (snd (mirrorOf s (row, col))) key"
    "cell (b s) (mirrorOf s (row, col)) = 0 \<or> cell (b s) (mirrorOf s (row, col)) = key"
proof -
  obtain m where n: "n = Suc m" using assms(8) by (cases n) auto
  let ?s3 = "place key row col s"
  let ?y = "mirrorOf s (row, col)"
  have g: "grows s ?s3" by (rule grows_place [OF assms(1,3,4,6)])
  have wf3: "wf_board ?s3" using assms(1) g by (rule grows_wf)
  have tb: "tbl (b s)" using assms(1) by (simp add: wf_board_def)
  have b3: "b ?s3 = setCell (b s) row col key" by (rule place_b)
  have x: "(row, col) \<in> set (allCells 9)" using assms(3,4) by (simp add: allCells_iff)
  have gr': "cell (isGrey s) (row, col) \<noteq> 0" using assms(7) by simp
  note mp = mirror_props [OF assms(1,2) x gr']
  have y9: "fst ?y < 9" "snd ?y < 9" using mp(1) by (simp_all add: allCells_iff)
  have call: "addNumber m key (fst ?y) (snd ?y) ?s3 = Some (Inr t)"
    using assms(8) unfolding n addNumber_blank_grey [OF assms(1,3,4,6,7)] .
  obtain k where m: "m = Suc k" using call by (cases m) auto
  have both: "b t = setCell (setCell (b s) row col key) (fst ?y) (snd ?y) key \<and>
          (cell (b s) ?y = 0 \<or> cell (b s) ?y = key)"
  proof (cases "b ?s3 ! fst ?y ! snd ?y = 0")
    case False
    have "addNumber (Suc k) key (fst ?y) (snd ?y) ?s3 =
          (if key = b ?s3 ! fst ?y ! snd ?y then Some (Inr ?s3)
           else Some (Inl (ImpossibleSetup, ?s3)))"
      using False by simp
    then have eq: "b ?s3 ! fst ?y ! snd ?y = key" and t3: "t = ?s3"
      using call unfolding m by (auto split: if_splits)
    have "setCell (b ?s3) (fst ?y) (snd ?y) key = b ?s3"
      using eq y9 wf3 by (intro setCell_same) (simp_all add: wf_board_def)
    moreover have "cell (b s) ?y = 0 \<or> cell (b s) ?y = key"
      using eq tb assms(3,4,6) by (auto simp: b3 nth_setCell split: if_splits)
    ultimately show ?thesis by (simp add: t3 b3)
  next
    case True
    then have ne: "?y \<noteq> (row, col)" and y0: "cell (b s) ?y = 0"
      using tb assms(3,4,5) by (auto simp: b3 nth_setCell split: if_splits)
    let ?s5 = "place key (fst ?y) (snd ?y) ?s3"
    have g3: "isGrey ?s3 = isGrey s" "greyIndexes ?s3 = greyIndexes s" "greys ?s3 = greys s"
      by (simp_all add: place_def)
    have gy: "isGrey ?s3 ! fst ?y ! snd ?y \<noteq> 0" using mp(2) by (simp add: g3)
    have my: "mirrorOf ?s3 (fst ?y, snd ?y) = (row, col)" using mp(3) by (simp add: mirrorOf_def g3)
    have call5: "addNumber k key row col ?s5 = Some (Inr t)"
      using call unfolding m addNumber_blank_grey [OF wf3 y9 True gy] my by simp
    have b5: "b ?s5 = setCell (setCell (b s) row col key) (fst ?y) (snd ?y) key"
      by (simp add: place_b)
    have "b ?s5 ! row ! col = key"
      unfolding b5 using tb assms(3,4) y9 by (simp add: nth_setCell)
    then have "t = ?s5" using call5 assms(5) by (cases k) (auto split: if_splits)
    then show ?thesis using b5 y0 by simp
  qed
  then show "b t = setCell (setCell (b s) row col key) (fst ?y) (snd ?y) key"
    "cell (b s) ?y = 0 \<or> cell (b s) ?y = key" by simp_all
qed

section \<open>The choice of the square to guess from\<close>

lemma greyStep_alt:
  "greyStep s x acc = (if blank s x \<and> cands s x < fst acc then (cands s x, x) else acc)"
  by (simp add: greyStep_def blank_def cands_def)

lemma fullStep_alt:
  "fullStep s x acc =
     (if blank s x \<and> (cands s x < fst acc \<or> (cands s x = fst acc \<and> cell (isPurple s) x \<noteq> 0))
      then (cands s x, x) else acc)"
  by (simp add: fullStep_def blank_def cands_def)

lemma greyScan:
  fixes s xs acc
  defines "res \<equiv> fold (greyStep s) xs acc"
  shows "fst res \<le> fst acc"
    and "\<forall>x \<in> set xs. blank s x \<longrightarrow> fst res \<le> cands s x"
    and "fst res = fst acc \<Longrightarrow> res = acc"
    and "fst res < fst acc \<Longrightarrow>
         \<exists>i < length xs. snd res = xs ! i \<and> blank s (xs ! i) \<and> cands s (xs ! i) = fst res \<and>
            (\<forall>j < i. blank s (xs ! j) \<longrightarrow> fst res < cands s (xs ! j))"
proof -
  have "fst (fold (greyStep s) xs acc) \<le> fst acc \<and>
        (\<forall>x \<in> set xs. blank s x \<longrightarrow> fst (fold (greyStep s) xs acc) \<le> cands s x) \<and>
        (fst (fold (greyStep s) xs acc) = fst acc \<longrightarrow> fold (greyStep s) xs acc = acc) \<and>
        (fst (fold (greyStep s) xs acc) < fst acc \<longrightarrow>
           (\<exists>i < length xs. snd (fold (greyStep s) xs acc) = xs ! i \<and> blank s (xs ! i) \<and>
              cands s (xs ! i) = fst (fold (greyStep s) xs acc) \<and>
              (\<forall>j < i. blank s (xs ! j) \<longrightarrow> fst (fold (greyStep s) xs acc) < cands s (xs ! j))))"
  proof (induction xs arbitrary: acc)
    case Nil
    then show ?case by simp
  next
    case (Cons x xs)
    let ?a = "greyStep s x acc"
    let ?r = "fold (greyStep s) xs ?a"
    note IH = Cons.IH [of ?a]
    have r: "fold (greyStep s) (x # xs) acc = ?r" by simp
    show ?case
    proof (cases "blank s x \<and> cands s x < fst acc")
      case True
      then have a: "?a = (cands s x, x)" by (simp add: greyStep_alt)
      have 1: "fst ?r \<le> cands s x" using IH a by simp
      have idx: "\<exists>i < length (x # xs). snd ?r = (x # xs) ! i \<and> blank s ((x # xs) ! i) \<and>
              cands s ((x # xs) ! i) = fst ?r \<and>
              (\<forall>j < i. blank s ((x # xs) ! j) \<longrightarrow> fst ?r < cands s ((x # xs) ! j))"
      proof (cases "fst ?r < cands s x")
        case True
        then obtain i where i: "i < length xs" "snd ?r = xs ! i" "blank s (xs ! i)"
          "cands s (xs ! i) = fst ?r" "\<forall>j < i. blank s (xs ! j) \<longrightarrow> fst ?r < cands s (xs ! j)"
          using IH a by auto
        have "\<forall>j < Suc i. blank s ((x # xs) ! j) \<longrightarrow> fst ?r < cands s ((x # xs) ! j)"
        proof (intro allI impI)
          fix j assume "j < Suc i" "blank s ((x # xs) ! j)"
          then show "fst ?r < cands s ((x # xs) ! j)"
            using i(5) True by (cases j) auto
        qed
        with i show ?thesis by (intro exI [of _ "Suc i"]) simp
      next
        case False
        with 1 have "fst ?r = fst ?a" using a by simp
        then have "?r = (cands s x, x)" using IH a by simp
        with \<open>blank s x \<and> cands s x < fst acc\<close> show ?thesis
          by (intro exI [of _ 0]) simp
      qed
      show ?thesis unfolding r using True 1 IH idx a by auto
    next
      case False
      then have a: "?a = acc" by (auto simp: greyStep_alt)
      have idx: "\<exists>i < length (x # xs). snd ?r = (x # xs) ! i \<and> blank s ((x # xs) ! i) \<and>
              cands s ((x # xs) ! i) = fst ?r \<and>
              (\<forall>j < i. blank s ((x # xs) ! j) \<longrightarrow> fst ?r < cands s ((x # xs) ! j))"
        if lt: "fst ?r < fst acc"
      proof -
        obtain i where i: "i < length xs" "snd ?r = xs ! i" "blank s (xs ! i)"
          "cands s (xs ! i) = fst ?r" "\<forall>j < i. blank s (xs ! j) \<longrightarrow> fst ?r < cands s (xs ! j)"
          using IH a lt by auto
        have "\<forall>j < Suc i. blank s ((x # xs) ! j) \<longrightarrow> fst ?r < cands s ((x # xs) ! j)"
        proof (intro allI impI)
          fix j assume "j < Suc i" "blank s ((x # xs) ! j)"
          then show "fst ?r < cands s ((x # xs) ! j)"
            using i(5) False lt by (cases j) auto
        qed
        with i show ?thesis by (intro exI [of _ "Suc i"]) simp
      qed
      have "blank s x \<longrightarrow> fst ?r \<le> cands s x" using IH a False by auto
      then show ?thesis unfolding r using IH idx a by auto
    qed
  qed
  then show "fst res \<le> fst acc"
    and "\<forall>x \<in> set xs. blank s x \<longrightarrow> fst res \<le> cands s x"
    and "fst res = fst acc \<Longrightarrow> res = acc"
    and "fst res < fst acc \<Longrightarrow>
         \<exists>i < length xs. snd res = xs ! i \<and> blank s (xs ! i) \<and> cands s (xs ! i) = fst res \<and>
            (\<forall>j < i. blank s (xs ! j) \<longrightarrow> fst res < cands s (xs ! j))"
    unfolding res_def by blast+
qed

lemma fullStep_le: "fst (fullStep s x acc) \<le> fst acc"
  by (auto simp: fullStep_alt)

lemma fullScan_le: "fst (fold (fullStep s) xs acc) \<le> fst acc"
proof (induction xs arbitrary: acc)
  case Nil
  then show ?case by simp
next
  case (Cons x xs)
  have "fst (fold (fullStep s) xs (fullStep s x acc)) \<le> fst (fullStep s x acc)" by (rule Cons.IH)
  also have "\<dots> \<le> fst acc" by (rule fullStep_le)
  finally show ?case by simp
qed

lemma fullScan_min: "x \<in> set xs \<Longrightarrow> blank s x \<Longrightarrow> fst (fold (fullStep s) xs acc) \<le> cands s x"
proof (induction xs arbitrary: acc)
  case Nil
  then show ?case by simp
next
  case (Cons y xs)
  show ?case
  proof (cases "x = y")
    case True
    have "fst (fullStep s y acc) \<le> cands s y"
      using Cons.prems(2) True by (auto simp: fullStep_alt)
    then show ?thesis
      using fullScan_le [of s xs "fullStep s y acc"] True by simp
  next
    case False
    then show ?thesis using Cons by simp
  qed
qed

lemma fullScan_pick:
  "fold (fullStep s) xs acc = acc \<or>
   snd (fold (fullStep s) xs acc) \<in> set xs \<and> blank s (snd (fold (fullStep s) xs acc)) \<and>
   cands s (snd (fold (fullStep s) xs acc)) = fst (fold (fullStep s) xs acc)"
proof (induction xs arbitrary: acc)
  case Nil
  then show ?case by simp
next
  case (Cons x xs)
  let ?a = "fullStep s x acc"
  let ?r = "fold (fullStep s) xs ?a"
  have a: "?a = acc \<or> ?a = (cands s x, x) \<and> blank s x" by (auto simp: fullStep_alt)
  have "?r = ?a \<or> snd ?r \<in> set xs \<and> blank s (snd ?r) \<and> cands s (snd ?r) = fst ?r"
    by (rule Cons.IH)
  then have "?r = acc \<or> snd ?r \<in> set (x # xs) \<and> blank s (snd ?r) \<and> cands s (snd ?r) = fst ?r"
    using a by auto
  then show ?case by simp
qed

lemma fullScan_purple:
  "(\<exists>x \<in> set xs. blank s x \<and> cands s x = fst (fold (fullStep s) xs acc) \<and>
                  cell (isPurple s) x \<noteq> 0) \<or>
   fst acc = fst (fold (fullStep s) xs acc) \<and> cell (isPurple s) (snd acc) \<noteq> 0 \<Longrightarrow>
   cell (isPurple s) (snd (fold (fullStep s) xs acc)) \<noteq> 0"
proof (induction xs arbitrary: acc)
  case Nil
  then show ?case by simp
next
  case (Cons x xs)
  let ?a = "fullStep s x acc"
  let ?r = "fold (fullStep s) xs ?a"
  have r: "fold (fullStep s) (x # xs) acc = ?r" by simp
  have le: "fst ?r \<le> fst ?a" by (rule fullScan_le)
  have le2: "fst ?a \<le> fst acc" by (rule fullStep_le)
  have "(\<exists>y \<in> set xs. blank s y \<and> cands s y = fst ?r \<and> cell (isPurple s) y \<noteq> 0) \<or>
        fst ?a = fst ?r \<and> cell (isPurple s) (snd ?a) \<noteq> 0"
  proof -
    consider (tail) "\<exists>y \<in> set xs. blank s y \<and> cands s y = fst ?r \<and> cell (isPurple s) y \<noteq> 0"
      | (head) "blank s x" "cands s x = fst ?r" "cell (isPurple s) x \<noteq> 0"
      | (start) "fst acc = fst ?r" "cell (isPurple s) (snd acc) \<noteq> 0"
      using Cons.prems unfolding r by auto
    then show ?thesis
    proof cases
      case tail
      then show ?thesis by blast
    next
      case head
      then have "cands s x \<le> fst acc" using le le2 by simp
      with head have "?a = (cands s x, x)" by (auto simp: fullStep_alt)
      with head show ?thesis by simp
    next
      case start
      then have eq: "fst ?a = fst acc" using le le2 by simp
      have "?a = acc \<or> ?a = (cands s x, x) \<and> blank s x \<and>
              (cands s x < fst acc \<or> cands s x = fst acc \<and> cell (isPurple s) x \<noteq> 0)"
        by (auto simp: fullStep_alt)
      then have "cell (isPurple s) (snd ?a) \<noteq> 0" using eq start(2) by auto
      with eq start show ?thesis by simp
    qed
  qed
  from Cons.IH [OF this] show ?case by simp
qed

lemma fullScan_none: "\<forall>x \<in> set xs. \<not> blank s x \<Longrightarrow> fold (fullStep s) xs acc = acc"
  by (induction xs arbitrary: acc) (simp_all add: fullStep_alt)

lemma cands_small: "wf_board s \<Longrightarrow> x \<in> set (allCells 9) \<Longrightarrow> cands s x \<le> 9"
proof -
  assume "wf_board s" "x \<in> set (allCells 9)"
  then have "cell (p s) x \<subseteq> {1 .. 9}" unfolding wf_board_def by blast
  then have "card (cell (p s) x) \<le> card {1 .. 9 :: int}" by (intro card_mono) simp_all
  then show ?thesis by (simp add: cands_def)
qed

lemma grey_cells_inGrid: "wf_board s \<Longrightarrow> x \<in> set (concat (greys s)) \<Longrightarrow> x \<in> set (allCells 9)"
  unfolding wf_board_def inGrid_allCells by auto

text \<open>The choice made while the flag is set and a grey square is blank.\<close>

lemma selectCell_grey:
  assumes "wf_board s" "\<exists>x \<in> set (concat (greys s)). blank s x"
  shows "\<exists>i < length (concat (greys s)).
           selectCell s True = (cands s (concat (greys s) ! i), concat (greys s) ! i, True) \<and>
           blank s (concat (greys s) ! i) \<and>
           (\<forall>j < length (concat (greys s)). blank s (concat (greys s) ! j) \<longrightarrow>
              cands s (concat (greys s) ! i) \<le> cands s (concat (greys s) ! j)) \<and>
           (\<forall>j < i. blank s (concat (greys s) ! j) \<longrightarrow>
              cands s (concat (greys s) ! i) < cands s (concat (greys s) ! j))"
proof -
  let ?gs = "concat (greys s)"
  let ?r = "fold (greyStep s) ?gs (100, (0, 0))"
  obtain x where x: "x \<in> set ?gs" "blank s x" using assms(2) by blast
  then have "cands s x \<le> 9" using assms(1) by (intro cands_small grey_cells_inGrid)
  moreover have "fst ?r \<le> cands s x" using greyScan(2) [where s = s and xs = "?gs" and acc = "(100, (0, 0))"] x by blast
  ultimately have lt: "fst ?r < 100" by simp
  then obtain i where i: "i < length ?gs" "snd ?r = ?gs ! i" "blank s (?gs ! i)"
    "cands s (?gs ! i) = fst ?r" "\<forall>j < i. blank s (?gs ! j) \<longrightarrow> fst ?r < cands s (?gs ! j)"
    using greyScan(4) [where s = s and xs = "?gs" and acc = "(100, (0, 0))"] by auto
  have sel: "selectCell s True = (fst ?r, snd ?r, True)"
    using lt by (simp add: selectCell_def Let_def)
  have "\<forall>j < length ?gs. blank s (?gs ! j) \<longrightarrow> fst ?r \<le> cands s (?gs ! j)"
    using greyScan(2) [where s = s and xs = "?gs" and acc = "(100, (0, 0))"] nth_mem by blast
  with i sel show ?thesis by (intro exI [of _ i]) simp
qed

text \<open>The choice made once no grey square is blank, whatever the flag.\<close>

lemma selectCell_full:
  assumes "wf_board s" "\<forall>x \<in> set (concat (greys s)). \<not> blank s x"
  shows "selectCell s g = (fst (fold (fullStep s) (allCells 9) (100, (0, 0))),
                           snd (fold (fullStep s) (allCells 9) (100, (0, 0))), False)"
proof -
  let ?gs = "concat (greys s)"
  let ?r = "fold (greyStep s) ?gs (100, (0, 0))"
  have "\<not> fst ?r < 100"
  proof
    assume "fst ?r < 100"
    then obtain i where "i < length ?gs" "blank s (?gs ! i)"
      using greyScan(4) [where s = s and xs = "?gs" and acc = "(100, (0, 0))"] by auto
    then show False using assms(2) nth_mem by blast
  qed
  moreover have "fst ?r \<le> 100" using greyScan(1) [where s = s and xs = "?gs" and acc = "(100, (0, 0))"] by simp
  ultimately have "fst ?r = 100" by simp
  then have "?r = (100, (0, 0))" using greyScan(3) [where s = s and xs = "?gs" and acc = "(100, (0, 0))"] by simp
  moreover have "M s = 9" using assms(1) by (simp add: wf_board_def)
  ultimately show ?thesis by (cases g) (simp_all add: selectCell_def Let_def)
qed

lemma fullScan_100:
  assumes "wf_board s" "\<forall>x \<in> set (allCells 9). \<not> blank s x"
  shows "fst (fold (fullStep s) (allCells 9) (100, (0, 0))) = 100"
  using fullScan_none [OF assms(2), of "(100, (0, 0))"] by simp

lemma fullScan_choice:
  fixes s
  defines "r \<equiv> fold (fullStep s) (allCells 9) (100, (0, 0))"
  assumes wf: "wf_board s" and ex: "\<exists>x \<in> set (allCells 9). blank s x"
  shows "snd r \<in> set (allCells 9) \<and> blank s (snd r) \<and> fst r = cands s (snd r) \<and> fst r < 100 \<and>
         (\<forall>y \<in> set (allCells 9). blank s y \<longrightarrow> cands s (snd r) \<le> cands s y) \<and>
         ((\<exists>y \<in> set (allCells 9). blank s y \<and> cands s y = cands s (snd r) \<and>
             cell (isPurple s) y \<noteq> 0) \<longrightarrow> cell (isPurple s) (snd r) \<noteq> 0)"
proof -
  obtain x where x: "x \<in> set (allCells 9)" "blank s x" using ex by blast
  then have "cands s x \<le> 9" using wf by (intro cands_small)
  moreover have "fst r \<le> cands s x" unfolding r_def using x by (intro fullScan_min)
  ultimately have lt: "fst r < 100" by simp
  then have "r \<noteq> (100, (0, 0))" by auto
  then have c: "snd r \<in> set (allCells 9)" "blank s (snd r)" "cands s (snd r) = fst r"
    using fullScan_pick [of s "allCells 9" "(100, (0, 0))"] unfolding r_def by auto
  have m: "\<forall>y \<in> set (allCells 9). blank s y \<longrightarrow> cands s (snd r) \<le> cands s y"
  proof (intro ballI impI)
    fix y assume "y \<in> set (allCells 9)" "blank s y"
    then have "fst r \<le> cands s y" unfolding r_def by (rule fullScan_min)
    then show "cands s (snd r) \<le> cands s y" using c(3) by simp
  qed
  have pu: "cell (isPurple s) (snd r) \<noteq> 0"
    if "\<exists>y \<in> set (allCells 9). blank s y \<and> cands s y = cands s (snd r) \<and> cell (isPurple s) y \<noteq> 0"
  proof -
    from that obtain y where "y \<in> set (allCells 9)" "blank s y" "cands s y = fst r"
      "cell (isPurple s) y \<noteq> 0" using c(3) by auto
    then show ?thesis
      unfolding r_def by (intro fullScan_purple) blast
  qed
  show ?thesis using c lt m pu by auto
qed

lemma selectCell_chosen:
  assumes "wf_board s" "selectCell s g = (mn, x, g')" "mn \<noteq> 100"
  shows "x \<in> set (allCells 9) \<and> blank s x"
proof (cases "g \<and> (\<exists>y \<in> set (concat (greys s)). blank s y)")
  case True
  then obtain i where "i < length (concat (greys s))"
    "selectCell s True = (cands s (concat (greys s) ! i), concat (greys s) ! i, True)"
    "blank s (concat (greys s) ! i)"
    using selectCell_grey [OF assms(1)] by blast
  note i = this
  have "x = concat (greys s) ! i" using assms(2) True i(2) by auto
  moreover have "concat (greys s) ! i \<in> set (concat (greys s))" using i(1) by (rule nth_mem)
  ultimately show ?thesis using grey_cells_inGrid [OF assms(1)] i(3) by blast
next
  case False
  let ?r = "fold (fullStep s) (allCells 9) (100, (0, 0))"
  have nb: "\<forall>y \<in> set (concat (greys s)). \<not> blank s y \<Longrightarrow> selectCell s g = (fst ?r, snd ?r, False)"
    by (rule selectCell_full [OF assms(1)])
  have sel: "selectCell s g = (fst ?r, snd ?r, False)"
  proof (cases g)
    case True
    with False nb show ?thesis by blast
  next
    case False
    have "M s = 9" using assms(1) by (simp add: wf_board_def)
    then show ?thesis using False by (simp add: selectCell_def Let_def)
  qed
  then have mn: "mn = fst ?r" "x = snd ?r" using assms(2) by simp_all
  have "\<exists>y \<in> set (allCells 9). blank s y"
    using fullScan_100 [OF assms(1)] assms(3) mn by blast
  from fullScan_choice [OF assms(1) this] show ?thesis using mn by simp
qed





section \<open>Invariants of the lines\<close>

lemma effect_search:
  assumes "wf_board s" "grey_ok s" "x \<in> set (allCells 9)" "key \<noteq> 0" "cell (b s) x = 0"
    "addNumber n key (fst x) (snd x) s = Some (Inr t)"
  shows "effect s x key t"
proof -
  have x9: "fst x < 9" "snd x < 9" using assms(3) by (simp_all add: allCells_iff)
  have g: "grows s t" using addNumber_grows [OF assms(1) x9 assms(6)] by simp
  show ?thesis
  proof (cases "cell (isGrey s) x = 0")
    case True
    from addNumber_effect_plain [OF assms(1) x9 assms(5) True assms(6)]
    show ?thesis using g True assms(5) by (simp add: effect_def)
  next
    case False
    from addNumber_effect_grey [OF assms(1,2) x9 assms(4,5) False assms(6)]
    show ?thesis using g False assms(5) by (simp add: effect_def)
  qed
qed

lemma wf_board_b_update: "wf_board s \<Longrightarrow> tbl g \<Longrightarrow> wf_board (s\<lparr>b := g\<rparr>)"
  by (simp add: wf_board_def)

lemma effect_init:
  assumes "wf_board s" "grey_ok s" "x \<in> set (allCells 9)" "key \<noteq> 0" "cell (b s) x = key"
    "addNumber n key (fst x) (snd x) (s\<lparr>b := setCell (b s) (fst x) (snd x) 0\<rparr>) = Some (Inr t)"
  shows "effect s x key t"
proof -
  let ?s0 = "s\<lparr>b := setCell (b s) (fst x) (snd x) 0\<rparr>"
  have x9: "fst x < 9" "snd x < 9" using assms(3) by (simp_all add: allCells_iff)
  have tb: "tbl (b s)" "tbl (p s)" using assms(1) by (simp_all add: wf_board_def)
  have wf0: "wf_board ?s0" using assms(1) tb by (intro wf_board_b_update) simp_all
  have g0: "grey_ok ?s0" using assms(2) by (simp add: grey_ok_def)
  have b0: "cell (b ?s0) x = 0" using tb x9 by (simp add: nth_setCell)
  have other: "cell (b ?s0) z = cell (b s) z" if "z \<noteq> x" for z
    using that tb x9 by (cases x; cases z) (auto simp: nth_setCell)
  have m0: "mirrorOf ?s0 x = mirrorOf s x" by (simp add: mirrorOf_def)
  have bk: "setCell (b ?s0) (fst x) (snd x) key = setCell (b s) (fst x) (snd x) key"
    by (simp add: setCell_twice)
  have e0: "effect ?s0 x key t" by (rule effect_search [OF wf0 g0 assms(3,4) b0 assms(6)])
  then have gr0: "grows ?s0 t" by (simp add: effect_def)
  have bt: "cell (b t) x = key"
  proof (cases "cell (isGrey s) x = 0")
    case True
    then have "b t = setCell (b s) (fst x) (snd x) key" using e0 bk by (simp add: effect_def)
    then show ?thesis using tb x9 by (simp add: nth_setCell)
  next
    case False
    then have "b t = setCell (setCell (b s) (fst x) (snd x) key)
                   (fst (mirrorOf s x)) (snd (mirrorOf s x)) key"
      using e0 bk m0 by (simp add: effect_def)
    moreover have "mirrorOf s x \<in> set (allCells 9)"
      using mirror_props(1) [OF assms(1,2,3)] False by simp
    ultimately show ?thesis using tb x9 by (simp add: nth_setCell allCells_iff)
  qed
  have g: "grows s t"
    unfolding grows_def
  proof (intro conjI ballI impI)
    fix z assume z: "z \<in> set (allCells 9)"
    show "cell (p t) z \<subseteq> cell (p s) z" using gr0 z by (simp add: grows_def)
    assume nz: "cell (b s) z \<noteq> 0"
    show "cell (b t) z = cell (b s) z"
    proof (cases "z = x")
      case True
      then show ?thesis using bt assms(5) by simp
    next
      case False
      then show ?thesis using gr0 z nz other [OF False] unfolding grows_def by metis
    qed
  qed (use gr0 in \<open>simp_all add: grows_def\<close>)
  show ?thesis
  proof (cases "cell (isGrey s) x = 0")
    case True
    have "\<forall>rc \<in> set (purples s ! (cell (isPurple s) x - 1)).
             cell (b s) rc \<noteq> 0 \<and> rc \<noteq> x \<longrightarrow>
             fits key (length (purples s ! (cell (isPurple s) x - 1))) (cell (b s) rc)"
      if "cell (isPurple s) x \<noteq> 0"
    proof (intro ballI impI)
      fix rc assume rc: "rc \<in> set (purples s ! (cell (isPurple s) x - 1))"
        and c: "cell (b s) rc \<noteq> 0 \<and> rc \<noteq> x"
      then have "cell (b ?s0) rc \<noteq> 0 \<and> rc \<noteq> x" using other by simp
      then have "fits key (length (purples s ! (cell (isPurple s) x - 1))) (cell (b ?s0) rc)"
        using e0 True that rc by (simp add: effect_def)
      then show "fits key (length (purples s ! (cell (isPurple s) x - 1))) (cell (b s) rc)"
        using other c by simp
    qed
    then show ?thesis using e0 True g assms(5) bk by (simp add: effect_def)
  next
    case False
    have "cell (b ?s0) (mirrorOf s x) = 0 \<or> cell (b ?s0) (mirrorOf s x) = key"
      using e0 False m0 by (simp add: effect_def)
    then have "cell (b s) (mirrorOf s x) = 0 \<or> cell (b s) (mirrorOf s x) = key"
      using other [of "mirrorOf s x"] assms(5) by (cases "mirrorOf s x = x") auto
    then show ?thesis using e0 False g assms(5) bk m0 by (simp add: effect_def)
  qed
qed

lemma fits_sym: "fits u L v \<Longrightarrow> fits v L u"
  by (auto simp: fits_def)

lemma grows_mirrorOf: "grows s t \<Longrightarrow> mirrorOf t = mirrorOf s"
  by (auto simp: grows_def mirrorOf_def)

lemma grows_grey_ok: "grows s t \<Longrightarrow> grey_ok s \<Longrightarrow> grey_ok t"
  by (simp add: grows_def grey_ok_def)

lemma grows_purple_ok: "grows s t \<Longrightarrow> purple_ok t = purple_ok s"
  by (simp add: grows_def purple_ok_def)

text \<open>The grid after a step with the given effect, square by square.\<close>

lemma effect_cells:
  assumes "wf_board s" "grey_ok s" "x \<in> set (allCells 9)" "effect s x key t"
  shows "cell (isGrey s) x = 0 \<Longrightarrow> cell (b t) w = (if w = x then key else cell (b s) w)"
    and "cell (isGrey s) x \<noteq> 0 \<Longrightarrow>
         cell (b t) w = (if w = x \<or> w = mirrorOf s x then key else cell (b s) w)"
proof -
  have x9: "fst x < 9" "snd x < 9" using assms(3) by (simp_all add: allCells_iff)
  have tb: "tbl (b s)" using assms(1) by (simp add: wf_board_def)
  show "cell (b t) w = (if w = x then key else cell (b s) w)" if "cell (isGrey s) x = 0"
  proof -
    have "b t = setCell (b s) (fst x) (snd x) key" using assms(4) that by (simp add: effect_def)
    then show ?thesis using tb x9 by (cases x; cases w) (auto simp: nth_setCell)
  qed
  show "cell (b t) w = (if w = x \<or> w = mirrorOf s x then key else cell (b s) w)"
    if gr: "cell (isGrey s) x \<noteq> 0"
  proof -
    let ?y = "mirrorOf s x"
    have "?y \<in> set (allCells 9)" using mirror_props(1) [OF assms(1,2,3) gr] .
    then have y9: "fst ?y < 9" "snd ?y < 9" by (simp_all add: allCells_iff)
    have "b t = setCell (setCell (b s) (fst x) (snd x) key) (fst ?y) (snd ?y) key"
      using assms(4) gr by (simp add: effect_def)
    then show ?thesis using tb x9 y9
      by (cases x; cases w; cases ?y) (auto simp: nth_setCell)
  qed
qed

lemma mirrored_step:
  assumes "wf_board s" "grey_ok s" "D \<subseteq> set (allCells 9)" "x \<in> set (allCells 9)"
    "mirrored D s" "effect s x key t"
  shows "mirrored (insert x D) t"
  unfolding mirrored_def
proof (intro ballI impI)
  fix z assume zin: "z \<in> insert x D" and z: "cell (isGrey t) z \<noteq> 0 \<and> cell (b t) z \<noteq> 0"
  have g: "grows s t" using assms(6) by (simp add: effect_def)
  have st: "isGrey t = isGrey s" "mirrorOf t = mirrorOf s"
    using g grows_mirrorOf by (simp_all add: grows_def)
  have zU: "z \<in> set (allCells 9)" using zin assms(3,4) by auto
  have zg: "cell (isGrey s) z \<noteq> 0" using z st by simp
  note mz = mirror_props [OF assms(1,2) zU zg]
  note ec = effect_cells [OF assms(1,2,4,6)]
  show "cell (b t) (mirrorOf t z) = cell (b t) z"
  proof (cases "cell (isGrey s) x = 0")
    case True
    have zx: "z \<noteq> x" using True zg by auto
    have mx: "mirrorOf s z \<noteq> x" using True mz(2) by auto
    have "z \<in> D" using zin zx by simp
    moreover have "cell (b s) z \<noteq> 0" using z ec(1) [OF True, of z] zx by simp
    ultimately have "cell (b s) (mirrorOf s z) = cell (b s) z"
      using assms(5) zg unfolding mirrored_def by blast
    then show ?thesis unfolding st using ec(1) [OF True] zx mx by simp
  next
    case False
    note mx = mirror_props [OF assms(1,2,4) False]
    consider (x) "z = x" | (y) "z = mirrorOf s x" | (other) "z \<noteq> x" "z \<noteq> mirrorOf s x" by blast
    then show ?thesis
    proof cases
      case x
      then show ?thesis unfolding st using ec(2) [OF False] by simp
    next
      case y
      then show ?thesis unfolding st using ec(2) [OF False] mx(3) by simp
    next
      case other
      have m1: "mirrorOf s z \<noteq> x" using other mx(3) mz(3) by metis
      have m2: "mirrorOf s z \<noteq> mirrorOf s x" using other mz(3) mx(3) by metis
      have "z \<in> D" using zin other by simp
      moreover have "cell (b s) z \<noteq> 0" using z ec(2) [OF False, of z] other by simp
      ultimately have "cell (b s) (mirrorOf s z) = cell (b s) z"
        using assms(5) zg unfolding mirrored_def by blast
      then show ?thesis unfolding st using ec(2) [OF False] other m1 m2 by simp
    qed
  qed
qed

lemma ranged_step:
  assumes "wf_board s" "grey_ok s" "purple_ok s" "D \<subseteq> set (allCells 9)" "x \<in> set (allCells 9)"
    "ranged D s" "effect s x key t"
  shows "ranged (insert x D) t"
  unfolding ranged_def
proof (intro ballI impI)
  fix line u v
  assume line: "line \<in> set (purples t)" and u: "u \<in> set line" and v: "v \<in> set line"
    and c: "u \<in> insert x D \<and> u \<noteq> v \<and> cell (b t) u \<noteq> 0 \<and> cell (b t) v \<noteq> 0"
  have g: "grows s t" using assms(7) by (simp add: effect_def)
  have st: "purples t = purples s" using g by (simp add: grows_def)
  obtain q where q: "q < length (purples s)" "line = purples s ! q"
    using line st by (auto simp: in_set_conv_nth)
  have tab: "cell (isPurple s) w = q + 1 \<and> cell (isGrey s) w = 0" if "w \<in> set line" for w
    using assms(3) q that unfolding purple_ok_def by simp
  note ec = effect_cells [OF assms(1,2,5,7)]
  show "fits (cell (b t) u) (length line) (cell (b t) v)"
  proof (cases "cell (isGrey s) x = 0")
    case False
    note mx = mirror_props [OF assms(1,2,5) False]
    have "u \<noteq> x" "v \<noteq> x" "u \<noteq> mirrorOf s x" "v \<noteq> mirrorOf s x"
      using tab [OF u] tab [OF v] False mx(2) by auto
    then have "cell (b t) u = cell (b s) u" "cell (b t) v = cell (b s) v" "u \<in> D"
      using ec(2) [OF False] c by simp_all
    then show ?thesis using assms(6) c u v line st unfolding ranged_def by metis
  next
    case True
    consider (u) "u = x" | (v) "v = x" "u \<noteq> x" | (other) "u \<noteq> x" "v \<noteq> x" by blast
    then show ?thesis
    proof cases
      case u
      then have xl: "cell (isPurple s) x = q + 1" using tab \<open>u \<in> set line\<close> by blast
      have vx: "v \<noteq> x" using c u by blast
      have "cell (b s) v \<noteq> 0" using c ec(1) [OF True, of v] vx by simp
      moreover have "\<forall>rc \<in> set line. cell (b s) rc \<noteq> 0 \<and> rc \<noteq> x \<longrightarrow>
                       fits key (length line) (cell (b s) rc)"
        using assms(7) True xl q(2) by (simp add: effect_def)
      ultimately have "fits key (length line) (cell (b s) v)" using v vx by blast
      then show ?thesis using ec(1) [OF True] u vx by simp
    next
      case v
      then have xl: "cell (isPurple s) x = q + 1" using tab \<open>v \<in> set line\<close> by blast
      have "cell (b s) u \<noteq> 0" using c ec(1) [OF True, of u] v by simp
      moreover have "\<forall>rc \<in> set line. cell (b s) rc \<noteq> 0 \<and> rc \<noteq> x \<longrightarrow>
                       fits key (length line) (cell (b s) rc)"
        using assms(7) True xl q(2) by (simp add: effect_def)
      ultimately have "fits key (length line) (cell (b s) u)" using u v by blast
      then show ?thesis using ec(1) [OF True] v by (simp add: fits_sym)
    next
      case other
      then have "cell (b t) u = cell (b s) u" "cell (b t) v = cell (b s) v" "u \<in> D"
        using ec(1) [OF True] c by simp_all
      then show ?thesis using assms(6) c u v line st unfolding ranged_def by metis
    qed
  qed
qed

lemma good_step:
  assumes "good D s" "x \<in> set (allCells 9)" "effect s x key t"
  shows "good (insert x D) t" "grows s t"
proof -
  have wf: "wf_board s" and gk: "grey_ok s" and D: "D \<subseteq> set (allCells 9)"
    and mi: "mirrored D s" and ra: "purple_ok s \<longrightarrow> ranged D s"
    using assms(1) by (simp_all add: good_def)
  show g: "grows s t" using assms(3) by (simp add: effect_def)
  have "wf_board t" using wf g by (rule grows_wf)
  moreover have "grey_ok t" using g gk by (rule grows_grey_ok)
  moreover have "mirrored (insert x D) t" by (rule mirrored_step [OF wf gk D assms(2) mi assms(3)])
  moreover have "ranged (insert x D) t" if "purple_ok t"
  proof -
    have pk: "purple_ok s" using that grows_purple_ok [OF g] by simp
    then show ?thesis using ranged_step [OF wf gk pk D assms(2) _ assms(3)] ra by blast
  qed
  ultimately show "good (insert x D) t" using D assms(2) by (simp add: good_def)
qed

lemma good_blank:
  assumes "good D s" "x \<in> set (allCells 9)" "cell (b s) x = 0"
  shows "good (insert x D) s"
proof -
  have in_D: "z \<in> D" if "z \<in> insert x D" "cell (b s) z \<noteq> 0" for z
    using that assms(3) by auto
  have "mirrored (insert x D) s"
    using assms(1) in_D unfolding good_def mirrored_def by blast
  moreover have "ranged (insert x D) s" if "purple_ok s"
  proof -
    have r: "ranged D s" using assms(1) that by (simp add: good_def)
    show ?thesis
      unfolding ranged_def
    proof (intro ballI impI)
      fix line u v
      assume "line \<in> set (purples s)" "u \<in> set line" "v \<in> set line"
        "u \<in> insert x D \<and> u \<noteq> v \<and> cell (b s) u \<noteq> 0 \<and> cell (b s) v \<noteq> 0"
      moreover from this have "u \<in> D" using in_D by blast
      ultimately show "fits (cell (b s) u) (length line) (cell (b s) v)"
        using r unfolding ranged_def by blast
    qed
  qed
  ultimately show ?thesis using assms(1,2) by (simp add: good_def)
qed

text \<open>The loop of \<open>updatePossibilities\<close> over a list of squares.\<close>

lemma init_good:
  assumes "good D s" "set cells \<subseteq> set (allCells 9)"
    "forEach cells
       (\<lambda>ij t. if b t ! fst ij ! snd ij \<noteq> 0
                then addNumber fuel (b t ! fst ij ! snd ij) (fst ij) (snd ij)
                       (t\<lparr>b := setCell (b t) (fst ij) (snd ij) 0\<rparr>)
                else Some (Inr t)) s = Some (Inr t)"
  shows "good (D \<union> set cells) t \<and> grows s t"
  using assms
proof (induction cells arbitrary: s D)
  case Nil
  then show ?case by (simp add: grows_refl good_def wf_board_def)
next
  case (Cons x cells)
  let ?step = "\<lambda>ij t. if b t ! fst ij ! snd ij \<noteq> 0
                then addNumber fuel (b t ! fst ij ! snd ij) (fst ij) (snd ij)
                       (t\<lparr>b := setCell (b t) (fst ij) (snd ij) 0\<rparr>)
                else Some (Inr t)"
  have xU: "x \<in> set (allCells 9)" and rest: "set cells \<subseteq> set (allCells 9)"
    using Cons.prems(2) by simp_all
  have wf: "wf_board s" and gk: "grey_ok s" using Cons.prems(1) by (simp_all add: good_def)
  obtain s' where s': "?step x s = Some (Inr s')"
    "forEach cells ?step s' = Some (Inr t)"
    using Cons.prems(3) by (auto split: option.splits sum.splits)
  have "good (insert x D) s' \<and> grows s s'"
  proof (cases "cell (b s) x = 0")
    case True
    then have "s' = s" using s'(1) by simp
    then show ?thesis using good_blank [OF Cons.prems(1) xU True] wf
      by (simp add: grows_refl wf_board_def)
  next
    case False
    then have "addNumber fuel (cell (b s) x) (fst x) (snd x)
                 (s\<lparr>b := setCell (b s) (fst x) (snd x) 0\<rparr>) = Some (Inr s')"
      using s'(1) by simp
    from effect_init [OF wf gk xU False refl this]
    show ?thesis using good_step [OF Cons.prems(1) xU] by blast
  qed
  then have g1: "good (insert x D) s'" and g2: "grows s s'" by simp_all
  from Cons.IH [OF g1 rest s'(2)]
  have "good (insert x D \<union> set cells) t" "grows s' t" by simp_all
  then show ?case using g2 grows_trans by auto
qed

lemma selectCell_solved:
  assumes "wf_board s" "fst (selectCell s g) = 100"
  shows "\<forall>x \<in> set (allCells 9). \<not> blank s x"
proof (rule ccontr)
  assume "\<not> (\<forall>x \<in> set (allCells 9). \<not> blank s x)"
  then have ex: "\<exists>x \<in> set (allCells 9). blank s x" by blast
  show False
  proof (cases "g \<and> (\<exists>y \<in> set (concat (greys s)). blank s y)")
    case True
    then obtain i where i: "i < length (concat (greys s))"
      "selectCell s True = (cands s (concat (greys s) ! i), concat (greys s) ! i, True)"
      using selectCell_grey [OF assms(1)] by blast
    have "concat (greys s) ! i \<in> set (allCells 9)"
      using grey_cells_inGrid [OF assms(1)] i(1) nth_mem by blast
    then have "cands s (concat (greys s) ! i) \<le> 9" by (rule cands_small [OF assms(1)])
    then show False using assms(2) i(2) True by simp
  next
    case False
    let ?r = "fold (fullStep s) (allCells 9) (100, (0, 0))"
    have "selectCell s g = (fst ?r, snd ?r, False)"
    proof (cases g)
      case True
      with False show ?thesis using selectCell_full [OF assms(1)] by blast
    next
      case False
      have "M s = 9" using assms(1) by (simp add: wf_board_def)
      then show ?thesis using False by (simp add: selectCell_def Let_def)
    qed
    then have "fst ?r = 100" using assms(2) by simp
    then show False using fullScan_choice [OF assms(1) ex] by simp
  qed
qed

lemma guess_good:
  assumes IH: "\<And>s level g grid. good (set (allCells 9)) s \<Longrightarrow>
                 recurse order n level g s = Some (Inr grid) \<Longrightarrow>
                 \<exists>t. good (set (allCells 9)) t \<and> grows s t \<and> b t = grid \<and>
                     (\<forall>x \<in> set (allCells 9). cell grid x \<noteq> 0)"
    and "good (set (allCells 9)) s" "x \<in> set (allCells 9)" "blank s x" "0 \<notin> set ks"
    and "guess order n ks level x g s = Some (Inr grid)"
  shows "\<exists>t. good (set (allCells 9)) t \<and> grows s t \<and> b t = grid \<and>
             (\<forall>x \<in> set (allCells 9). cell grid x \<noteq> 0)"
  using assms(5,6)
proof (induction ks)
  case Nil
  then show ?case by simp
next
  case (Cons k ks)
  have wf: "wf_board s" and gk: "grey_ok s" using assms(2) by (simp_all add: good_def)
  have k0: "k \<noteq> 0" and ks: "0 \<notin> set ks" using Cons.prems(1) by auto
  let ?a = "addNumber (Suc n) k (fst x) (snd x) s"
  have u: "guess order n (k # ks) level x g s =
     (case ?a of
        None \<Rightarrow> None
      | Some (Inl e) \<Rightarrow> guess order n ks level x g s
      | Some (Inr testBoard) \<Rightarrow>
          (case recurse order n (level + 1) g testBoard of
             None \<Rightarrow> None
           | Some (Inl e) \<Rightarrow> guess order n ks level x g s
           | Some (Inr grid) \<Rightarrow> Some (Inr grid)))"
    by (simp only: guess.simps)
  consider (rest) "guess order n ks level x g s = Some (Inr grid)"
    | (here) tb where "?a = Some (Inr tb)" "recurse order n (level + 1) g tb = Some (Inr grid)"
    using Cons.prems(2) unfolding u
    by (cases ?a; simp split: sum.splits option.splits)
  then show ?case
  proof cases
    case rest
    then show ?thesis using Cons.IH ks by blast
  next
    case here
    have "effect s x k tb"
      using effect_search [OF wf gk assms(3) k0 _ here(1)] assms(4) by (simp add: blank_def)
    from good_step [OF assms(2,3) this]
    have g1: "good (set (allCells 9)) tb" and g2: "grows s tb"
      using assms(3) by (simp_all add: insert_absorb)
    from IH [OF g1 here(2)] obtain t where
      "good (set (allCells 9)) t" "grows tb t" "b t = grid"
      "\<forall>x \<in> set (allCells 9). cell grid x \<noteq> 0" by blast
    then show ?thesis using g2 grows_trans by blast
  qed
qed

lemma recurse_good:
  assumes en: "enumerates order"
  shows "good (set (allCells 9)) s \<Longrightarrow> recurse order n level g s = Some (Inr grid) \<Longrightarrow>
   \<exists>t. good (set (allCells 9)) t \<and> grows s t \<and> b t = grid \<and>
       (\<forall>x \<in> set (allCells 9). cell grid x \<noteq> 0)"
proof (induction n arbitrary: s level g grid)
  case 0
  then show ?case by simp
next
  case (Suc n)
  have wf: "wf_board s" and gk: "grey_ok s" using Suc.prems(1) by (simp_all add: good_def)
  let ?sel = "selectCell s g"
  let ?x = "fst (snd ?sel)"
  have u: "recurse order (Suc n) level g s =
           (if fst ?sel = 100 then Some (Inr (b s))
            else guess order n (order level s (p s ! fst ?x ! snd ?x)) level ?x (snd (snd ?sel)) s)"
    unfolding recurse.simps check_id Let_def by (simp only: option.case sum.case)
  show ?case
  proof (cases "fst ?sel = 100")
    case True
    then have "grid = b s" using Suc.prems(2) unfolding u by simp
    moreover have "\<forall>x \<in> set (allCells 9). cell (b s) x \<noteq> 0"
      using selectCell_solved [OF wf True] by (simp add: blank_def)
    ultimately show ?thesis using Suc.prems(1) wf
      by (intro exI [of _ s]) (simp add: grows_refl wf_board_def)
  next
    case False
    have sel: "?sel = (fst ?sel, ?x, snd (snd ?sel))" by simp
    have x: "?x \<in> set (allCells 9)" "blank s ?x"
      using selectCell_chosen [OF wf sel False] by simp_all
    have gs: "guess order n (order level s (p s ! fst ?x ! snd ?x)) level ?x (snd (snd ?sel)) s
              = Some (Inr grid)"
      using Suc.prems(2) False unfolding u by simp
    have sub: "cell (p s) ?x \<subseteq> {1 .. 9}" using wf x(1) unfolding wf_board_def by blast
    then have "finite (cell (p s) ?x)" by (rule finite_subset) simp
    then have "set (order level s (cell (p s) ?x)) = cell (p s) ?x"
      using en unfolding enumerates_def by blast
    then have k0: "0 \<notin> set (order level s (p s ! fst ?x ! snd ?x))" using sub by auto
    show ?thesis
      by (rule guess_good [OF Suc.IH Suc.prems(1) x k0 gs])
  qed
qed

lemma Board_initBoard:
  "Board fuel grid isGrey0 greyIndexes0 isPurple0 greys0 purples0 =
   updatePossibilities fuel (initBoard grid isGrey0 greyIndexes0 isPurple0 greys0 purples0)"
  by (simp add: Board_def initBoard_def)

text \<open>What holds of every grid \<open>solve\<close> returns.\<close>

lemma solve_good:
  assumes en: "enumerates order" and "wf_board s0" "grey_ok s0"
    "s0 = initBoard grid isGrey0 greyIndexes0 isPurple0 greys0 purples0"
    "solve order fuel grid isGrey0 greyIndexes0 isPurple0 greys0 purples0 = Some (Inr g)"
  shows "\<exists>t. good (set (allCells 9)) t \<and> grows s0 t \<and> b t = g \<and>
            (\<forall>x \<in> set (allCells 9). cell g x \<noteq> 0)"
proof -
  have M9: "M s0 = 9" using assms(2) by (simp add: wf_board_def)
  obtain s1 where s1: "updatePossibilities fuel s0 = Some (Inr s1)"
    "recurse order fuel 0 True s1 = Some (Inr g)"
    using assms(5) unfolding solve_def Board_initBoard assms(4) [symmetric]
    by (auto split: option.splits sum.splits)
  have g0: "good {} s0"
    using assms(2,3) by (simp add: good_def mirrored_def ranged_def)
  have "good ({} \<union> set (allCells 9)) s1 \<and> grows s0 s1"
    using s1(1) unfolding updatePossibilities_def M9
    by (intro init_good [OF g0]) simp_all
  then have g1: "good (set (allCells 9)) s1" and g2: "grows s0 s1" by simp_all
  from recurse_good [OF en g1 s1(2)] obtain t where
    "good (set (allCells 9)) t" "grows s1 t" "b t = g"
    "\<forall>x \<in> set (allCells 9). cell g x \<noteq> 0" by blast
  then show ?thesis using g2 grows_trans by blast
qed

lemma consecutive_values:
  fixes vs :: "int list"
  assumes "distinct vs" "vs \<noteq> []"
    "\<forall>u \<in> set vs. \<forall>v \<in> set vs. v < u + int (length vs)"
  shows "set vs = {Min (set vs) ..< Min (set vs) + int (length vs)}"
proof -
  let ?m = "Min (set vs)"
  have m: "?m \<in> set vs" using assms(2) by (intro Min_in) simp_all
  have "set vs \<subseteq> {?m ..< ?m + int (length vs)}"
  proof
    fix v assume v: "v \<in> set vs"
    then have "?m \<le> v" by simp
    moreover have "v < ?m + int (length vs)" using assms(3) m v by blast
    ultimately show "v \<in> {?m ..< ?m + int (length vs)}" by simp
  qed
  moreover have "card (set vs) = card {?m ..< ?m + int (length vs)}"
    using assms(1) by (simp add: distinct_card)
  ultimately show ?thesis by (intro card_subset_eq) simp_all
qed

text \<open>
  Claim C6.  In every grid \<open>solve\<close> returns, in whatever order the candidate sets are
  iterated, on every grey line the value at position
  \<open>i\<close> equals the value at position \<open>L - 1 - i\<close>; and a returning call of \<open>addNumber\<close>
  on a blank grey square leaves the key on the square and on its mirror square (which
  is the square itself at the centre of a line of odd length).
\<close>

theorem solved_grid_mirrored:
  assumes "wf_board (initBoard grid isGrey0 greyIndexes0 isPurple0 greys0 purples0)"
    "grey_ok (initBoard grid isGrey0 greyIndexes0 isPurple0 greys0 purples0)"
    "solve order fuel grid isGrey0 greyIndexes0 isPurple0 greys0 purples0 = Some (Inr g)"
    and en: "enumerates order"
  shows "(\<forall>line \<in> set greys0. \<forall>i < length line.
            cell g (line ! i) = cell g (line ! (length line - 1 - i))) \<and>
         (\<forall>s n key x t.
            wf_board s \<and> grey_ok s \<and> x \<in> set (allCells 9) \<and> key \<noteq> 0 \<and> blank s x \<and>
            cell (isGrey s) x \<noteq> 0 \<and> addNumber n key (fst x) (snd x) s = Some (Inr t) \<longrightarrow>
            cell (b t) x = key \<and> cell (b t) (mirrorOf s x) = key)"
proof (intro conjI ballI allI impI)
  let ?s0 = "initBoard grid isGrey0 greyIndexes0 isPurple0 greys0 purples0"
  fix line i assume line: "line \<in> set greys0" and i: "i < length line"
  from solve_good [OF en assms(1,2) refl assms(3)] obtain t where
    t: "good (set (allCells 9)) t" "grows ?s0 t" "b t = g"
    "\<forall>x \<in> set (allCells 9). cell g x \<noteq> 0" by blast
  have wf: "wf_board t" and gk: "grey_ok t" and mi: "mirrored (set (allCells 9)) t"
    using t(1) by (simp_all add: good_def)
  have gr: "greys t = greys0" using t(2) by (simp add: grows_def initBoard_def)
  obtain q where q: "q < length (greys t)" "line = greys t ! q"
    using line gr by (auto simp: in_set_conv_nth)
  have tab: "cell (isGrey t) (line ! i) = q + 1" "cell (greyIndexes t) (line ! i) = i"
    using gk q i unfolding grey_ok_def by simp_all
  have m: "mirrorOf t (line ! i) = line ! (length line - 1 - i)"
    unfolding mirrorOf_def tab using q(2) by simp
  have "line ! i \<in> set line" using i by (rule nth_mem)
  then have "line ! i \<in> set (concat (greys t))" using line gr by auto
  then have xU: "line ! i \<in> set (allCells 9)" by (rule grey_cells_inGrid [OF wf])
  then have "cell (b t) (line ! i) \<noteq> 0" using t(3,4) by simp
  then have "cell (b t) (mirrorOf t (line ! i)) = cell (b t) (line ! i)"
    using mi xU tab(1) unfolding mirrored_def by simp
  then show "cell g (line ! i) = cell g (line ! (length line - 1 - i))"
    using m t(3) by simp
next
  fix s n key x t
  assume a: "wf_board s \<and> grey_ok s \<and> x \<in> set (allCells 9) \<and> key \<noteq> 0 \<and> blank s x \<and>
            cell (isGrey s) x \<noteq> 0 \<and> addNumber n key (fst x) (snd x) s = Some (Inr t)"
  then have e: "effect s x key t"
    using effect_search [of s x key n t] by (simp add: blank_def)
  from effect_cells(2) [OF _ _ _ e] a
  show "cell (b t) x = key" "cell (b t) (mirrorOf s x) = key" by simp_all
qed

text \<open>
  Claim C5.  In every grid \<open>solve\<close> returns, in whatever order the candidate sets are
  iterated, the values on every purple line of length
  \<open>L\<close> are pairwise distinct and form a run of \<open>L\<close> consecutive integers
  \<open>m, ..., m + L - 1\<close>.
\<close>

theorem solved_grid_range_lines:
  assumes "wf_board (initBoard grid isGrey0 greyIndexes0 isPurple0 greys0 purples0)"
    "grey_ok (initBoard grid isGrey0 greyIndexes0 isPurple0 greys0 purples0)"
    "purple_ok (initBoard grid isGrey0 greyIndexes0 isPurple0 greys0 purples0)"
    "solve order fuel grid isGrey0 greyIndexes0 isPurple0 greys0 purples0 = Some (Inr g)"
    and en: "enumerates order"
  shows "\<forall>line \<in> set purples0.
           distinct (map (cell g) line) \<and>
           (\<exists>m. set (map (cell g) line) = {m ..< m + int (length line)})"
proof
  let ?s0 = "initBoard grid isGrey0 greyIndexes0 isPurple0 greys0 purples0"
  fix line assume line: "line \<in> set purples0"
  from solve_good [OF en assms(1,2) refl assms(4)] obtain t where
    t: "good (set (allCells 9)) t" "grows ?s0 t" "b t = g"
    "\<forall>x \<in> set (allCells 9). cell g x \<noteq> 0" by blast
  have pk: "purple_ok t" using assms(3) grows_purple_ok [OF t(2)] by simp
  have wf: "wf_board t" and ra: "ranged (set (allCells 9)) t"
    using t(1) pk by (simp_all add: good_def)
  have pu: "purples t = purples0" using t(2) by (simp add: grows_def initBoard_def)
  obtain q where q: "q < length (purples t)" "line = purples t ! q"
    using line pu by (auto simp: in_set_conv_nth)
  have dl: "distinct line" using pk q unfolding purple_ok_def by simp
  have inU: "u \<in> set (allCells 9)" if "u \<in> set line" for u
    using wf line pu that unfolding wf_board_def inGrid_allCells by metis
  have pair: "fits (cell g u) (length line) (cell g v)"
    if "u \<in> set line" "v \<in> set line" "u \<noteq> v" for u v
    using ra that line pu inU t(3,4) unfolding ranged_def by metis
  have inj: "inj_on (cell g) (set line)"
  proof (rule inj_onI)
    fix u v assume "u \<in> set line" "v \<in> set line" "cell g u = cell g v"
    then show "u = v" using pair [of u v] by (auto simp: fits_def)
  qed
  then have dv: "distinct (map (cell g) line)" using dl by (simp add: distinct_map)
  have "\<exists>m. set (map (cell g) line) = {m ..< m + int (length line)}"
  proof (cases "line = []")
    case True
    then show ?thesis by simp
  next
    case False
    have "\<forall>a \<in> set (map (cell g) line). \<forall>c \<in> set (map (cell g) line).
            c < a + int (length (map (cell g) line))"
    proof (intro ballI)
      fix a c assume "a \<in> set (map (cell g) line)" "c \<in> set (map (cell g) line)"
      then obtain u v where uv: "u \<in> set line" "v \<in> set line" "a = cell g u" "c = cell g v"
        by auto
      show "c < a + int (length (map (cell g) line))"
      proof (cases "u = v")
        case True
        then show ?thesis using uv False by simp
      next
        case False
        then show ?thesis using pair [OF uv(1,2)] uv by (simp add: fits_def)
      qed
    qed
    from consecutive_values [OF dv _ this] False show ?thesis by auto
  qed
  with dv show "distinct (map (cell g) line) \<and>
           (\<exists>m. set (map (cell g) line) = {m ..< m + int (length line)})" by simp
qed

lemma example_wf:
  "wf_board (initBoard exGrid exIsGrey exGreyIndexes exIsPurple exGreys exPurples)"
  "grey_ok (initBoard exGrid exIsGrey exGreyIndexes exIsPurple exGreys exPurples)"
  "purple_ok (initBoard exGrid exIsGrey exGreyIndexes exIsPurple exGreys exPurples)"
  by code_simp+

lemma enumerates_ascending: "enumerates ascending"
  by (simp add: enumerates_def ascending_def)

lemma example_solved:
  "solve ascending 4 exGrid exIsGrey exGreyIndexes exIsPurple exGreys exPurples = Some (Inr exSolved)"
  by code_simp

theorem solved_grid_mirrored_witness:
  "wf_board (initBoard exGrid exIsGrey exGreyIndexes exIsPurple exGreys exPurples) \<and>
   grey_ok (initBoard exGrid exIsGrey exGreyIndexes exIsPurple exGreys exPurples) \<and>
   solve ascending 4 exGrid exIsGrey exGreyIndexes exIsPurple exGreys exPurples =
     Some (Inr exSolved) \<and>
   enumerates ascending \<and>
   exSolved ! 0 ! 3 = exSolved ! 1 ! 0"
proof -
  have "\<forall>line \<in> set exGreys. \<forall>i < length line.
          cell exSolved (line ! i) = cell exSolved (line ! (length line - 1 - i))"
    using solved_grid_mirrored [OF example_wf(1,2) example_solved enumerates_ascending] by blast
  moreover have "[(0, 3), (4, 4), (1, 0)] \<in> set exGreys" by (simp add: exGreys_def)
  ultimately have "\<forall>i < length [(0::nat, 3::nat), (4, 4), (1, 0)].
          cell exSolved ([(0, 3), (4, 4), (1, 0)] ! i) =
          cell exSolved ([(0, 3), (4, 4), (1, 0)] ! (length [(0::nat, 3::nat), (4, 4), (1, 0)] - 1 - i))"
    by (rule bspec)
  then have "0 < length [(0::nat, 3::nat), (4, 4), (1, 0)] \<longrightarrow>
          cell exSolved ([(0, 3), (4, 4), (1, 0)] ! 0) =
          cell exSolved ([(0, 3), (4, 4), (1, 0)] ! (length [(0::nat, 3::nat), (4, 4), (1, 0)] - 1 - 0))"
    by (rule spec)
  then have "exSolved ! 0 ! 3 = exSolved ! 1 ! 0" by simp
  then show ?thesis using example_wf(1,2) example_solved enumerates_ascending by blast
qed

theorem solved_grid_range_lines_witness:
  "wf_board (initBoard exGrid exIsGrey exGreyIndexes exIsPurple exGreys exPurples) \<and>
   grey_ok (initBoard exGrid exIsGrey exGreyIndexes exIsPurple exGreys exPurples) \<and>
   purple_ok (initBoard exGrid exIsGrey exGreyIndexes exIsPurple exGreys exPurples) \<and>
   solve ascending 4 exGrid exIsGrey exGreyIndexes exIsPurple exGreys exPurples =
     Some (Inr exSolved) \<and>
   enumerates ascending \<and>
   distinct (map (cell exSolved) [(0, 0), (0, 1), (0, 2)]) \<and>
   (\<exists>m. set (map (cell exSolved) [(0, 0), (0, 1), (0, 2)]) = {m ..< m + 3})"
proof -
  have "\<forall>line \<in> set exPurples.
          distinct (map (cell exSolved) line) \<and>
          (\<exists>m. set (map (cell exSolved) line) = {m ..< m + int (length line)})"
    by (rule solved_grid_range_lines [OF example_wf example_solved enumerates_ascending])
  then have "distinct (map (cell exSolved) [(0, 0), (0, 1), (0, 2)]) \<and>
          (\<exists>m. set (map (cell exSolved) [(0, 0), (0, 1), (0, 2)]) = {m ..< m + 3})"
    by (simp add: exPurples_def)
  then show ?thesis using example_wf example_solved enumerates_ascending by blast
qed

section \<open>Grids that break the rules of the puzzle\<close>

text \<open>
  Claim C1 says that every grid \<open>solve\<close> returns has each of 1 to 9 exactly once in
  every row, column and square.  \<open>addNumber\<close> writes its key without looking at the
  candidates of the square, so a value that arrives over a grey line can repeat a value
  of its row.  The puzzle \<open>hardGrid\<close> has the solution \<open>hardAnswer\<close>; the search
  guesses 4 for \<open>(0, 8)\<close>, the grey line writes 4 to \<open>(6, 5)\<close> although row 6 holds a 4
  already, and the grid returned has two 4s in row 6.  The candidate sets iterated on
  this puzzle are \<open>{4, 5}\<close> on the constructor's board and \<open>{5, 7}\<close> and one-member
  sets on copies; CPython iterates each of them in increasing order, so the run is that
  of \<open>solve ascending\<close>.
\<close>

theorem solve_returns_invalid_grid:
  "solve ascending 10 hardGrid hardIsGrey hardGreyIndexes noLines [[(0, 8), (6, 5)]] [] =
     Some (Inr hardReturned) \<and>
   hardReturned ! 6 = [9, 6, 5, 4, 1, 4, 3, 8, 2] \<and>
   count_list (hardReturned ! 6) 4 = 2"
  by code_simp

text \<open>
  The puzzle is a fair one: \<open>hardAnswer\<close> follows the rules, agrees with every clue and
  has equal values at the two ends of the grey line, while the returned grid breaks the
  rules.
\<close>

lemma hardGrid_solvable:
  "validGrid hardAnswer \<and> cell hardAnswer (0, 8) = cell hardAnswer (6, 5) \<and>
   (\<forall>x \<in> set (allCells 9). cell hardGrid x \<noteq> 0 \<longrightarrow> cell hardAnswer x = cell hardGrid x) \<and>
   \<not> validGrid hardReturned"
  by code_simp

text \<open>
  Claim C2 says that \<open>solve\<close> reports a puzzle as unsolvable when two clues of a row
  have the same value.  For the same reason as above the constructor accepts both clues:
  the full grid \<open>dupGrid\<close>, whose first row starts 1, 1, is returned as solved.  No
  square is blank, so no candidate set is iterated and the order plays no part.
\<close>

theorem duplicate_clues_accepted:
  "solve ascending 2 dupGrid noLines noLines noLines [] [] = Some (Inr dupGrid) \<and>
   dupGrid ! 0 ! 0 = 1 \<and> dupGrid ! 0 ! 1 = 1"
  by code_simp

end
